theory Spec2Isabelle
  imports Main "HOL-Library.Sublist" "HOL-Library.AList"
begin

section \<open>Python values used by \<open>bhs_api/fsearch.py\<close>\<close>

text \<open>
  Strings are \<open>char list\<close>; the model covers byte strings (ASCII letters, digits and
  white space are what the string operations below distinguish).  A Python \<open>dict\<close> is an
  association list with pairwise distinct keys; iteration follows the list, \<open>d[k] = v\<close> is
  \<open>AList.update k v d\<close>, \<open>del d[k]\<close> is \<open>AList.delete k d\<close> and \<open>d.get(k)\<close> is
  \<open>map_of d k\<close>.  Python fixes no iteration order for a \<open>dict\<close> here, so the properties of
  a filter below are stated for the parameters in any order and through \<open>map_of\<close>.
\<close>

type_synonym 'v dict = "(string \<times> 'v) list"

text \<open>Everything the code can raise: \<open>flask.abort(code, message)\<close> and Python's exceptions.\<close>

datatype error =
    Abort nat string
  | KeyError string
  | ValueError
  | IndexError
  | TypeError
  | ReError

subsection \<open>String methods\<close>

definition str_endswith :: "string \<Rightarrow> string \<Rightarrow> bool" where
  "str_endswith s suf \<longleftrightarrow> suffix suf s"

text \<open>\<open>sub in s\<close> on strings.\<close>

definition str_contains :: "string \<Rightarrow> string \<Rightarrow> bool" where
  "str_contains sub s \<longleftrightarrow> sublist sub s"

definition lower_char :: "char \<Rightarrow> char" where
  "lower_char c =
     (if 65 \<le> (of_char c :: nat) \<and> (of_char c :: nat) \<le> 90 then char_of (of_char c + (32::nat)) else c)"

definition upper_char :: "char \<Rightarrow> char" where
  "upper_char c =
     (if 97 \<le> (of_char c :: nat) \<and> (of_char c :: nat) \<le> 122 then char_of (of_char c - (32::nat)) else c)"

definition str_lower :: "string \<Rightarrow> string" where
  "str_lower s = map lower_char s"

definition str_upper :: "string \<Rightarrow> string" where
  "str_upper s = map upper_char s"

text \<open>\<open>s.split(sep)\<close> for a non-empty separator: the pieces between the occurrences of
  \<open>sep\<close>, found from left to right; there is always at least one piece.\<close>

fun str_split :: "string \<Rightarrow> string \<Rightarrow> string list" where
  "str_split sep [] = [[]]"
| "str_split sep (c # cs) =
     (if sep \<noteq> [] \<and> prefix sep (c # cs) then [] # str_split sep (drop (length sep - 1) cs)
      else (case str_split sep cs of
              [] \<Rightarrow> [[c]]
            | w # ws \<Rightarrow> (c # w) # ws))"

subsection \<open>\<open>int(s)\<close> and \<open>str(i)\<close>\<close>

text \<open>
  \<open>int\<close> on a string accepts a decimal literal: optional white space around an optional
  sign and at least one digit; anything else raises \<open>ValueError\<close> (\<open>None\<close> here).
\<close>

definition is_space :: "char \<Rightarrow> bool" where
  "is_space c \<longleftrightarrow> c \<in> set [CHR '' '', CHR 0x09, CHR 0x0A, CHR 0x0B, CHR 0x0C, CHR 0x0D]"

definition str_strip :: "string \<Rightarrow> string" where
  "str_strip s = rev (dropWhile is_space (rev (dropWhile is_space s)))"

definition digit_of :: "char \<Rightarrow> nat option" where
  "digit_of c =
     (if 48 \<le> (of_char c :: nat) \<and> (of_char c :: nat) \<le> 57 then Some (of_char c - 48) else None)"

definition digit_char :: "nat \<Rightarrow> char" where
  "digit_char d = char_of (48 + d)"

fun parse_digits :: "nat \<Rightarrow> string \<Rightarrow> nat option" where
  "parse_digits acc [] = Some acc"
| "parse_digits acc (c # cs) =
     (case digit_of c of None \<Rightarrow> None | Some d \<Rightarrow> parse_digits (10 * acc + d) cs)"

definition py_int :: "string \<Rightarrow> int option" where
  "py_int s =
     (case str_strip s of
        [] \<Rightarrow> None
      | c # cs \<Rightarrow>
          if c = CHR ''-'' then (if cs = [] then None else map_option (\<lambda>n. - int n) (parse_digits 0 cs))
          else if c = CHR ''+'' then (if cs = [] then None else map_option int (parse_digits 0 cs))
          else map_option int (parse_digits 0 (c # cs)))"

function digits_of_nat :: "nat \<Rightarrow> string" where
  "digits_of_nat n =
     (if n < 10 then [digit_char n] else digits_of_nat (n div 10) @ [digit_char (n mod 10)])"
  by pat_completeness auto
termination
  by (relation "measure (\<lambda>n. n)") auto

definition py_str :: "int \<Rightarrow> string" where
  "py_str i = (if i < 0 then CHR ''-'' # digits_of_nat (nat (- i)) else digits_of_nat (nat i))"

section \<open>The query compiler: \<open>build_query\<close>\<close>

text \<open>The module constants.\<close>

definition MAX_RESULTS :: int where
  "MAX_RESULTS = 30"

definition MAX_COUNT_RESULTS :: int where
  "MAX_COUNT_RESULTS = - 1"

definition ARGS_TO_INDEX :: "string dict" where
  "ARGS_TO_INDEX =
     [(''first_name'', ''name_lc.0''),
      (''last_name'', ''name_lc.1''),
      (''sex'', ''sex''),
      (''birth_place'', ''BIRT_PLAC_lc''),
      (''marriage_place'', ''MARR_PLAC_lc''),
      (''tree_number'', ''tree_num''),
      (''death_place'', ''DEAT_PLAC_lc''),
      (''place'', ''filler_lc'')]"

text \<open>
  The values of a Mongo filter document as \<open>build_query\<close> writes them:
  \<open>{'$exists': b}\<close>, \<open>{'$gte': lo, '$lte': hi}\<close>, a string, a compiled regular expression
  (kept as its pattern), an integer, a boolean, and the list of one-field documents under
  \<open>'$or'\<close>.
\<close>

datatype qval =
    QExists bool
  | QRange int int
  | QStr string
  | QRegex string
  | QInt int
  | QBool bool
  | QOr "(string \<times> qval) list list"

record year_range =
  min_r :: int
  max_r :: int

text \<open>\<open>_generate_year_range(year, fudge_factor=0)\<close>; a \<open>ValueError\<close> of \<open>int\<close> here is not
  inside any \<open>try\<close>.\<close>

definition generate_year_range :: "int \<Rightarrow> int \<Rightarrow> error + year_range" where
  "generate_year_range year fudge_factor =
     (case py_int (py_str (year + fudge_factor)) of
        None \<Rightarrow> Inl ValueError
      | Some maximum \<Rightarrow>
          (case py_int (py_str (year - fudge_factor)) of
             None \<Rightarrow> Inl ValueError
           | Some minimum \<Rightarrow> Inr \<lparr>min_r = minimum, max_r = maximum\<rparr>))"

subsection \<open>Stage 1: sorting the arguments\<close>

record buckets =
  names_and_places :: "string dict"
  years :: "string dict"
  sex :: "string option"
  individual_id :: "string option"
  only_deceased :: bool

definition init_buckets :: buckets where
  "init_buckets =
     \<lparr>names_and_places = [], years = [], sex = None, individual_id = None, only_deceased = False\<rparr>"

text \<open>The body of \<open>for k, v in search_dict.items()\<close>; \<open>search_dict[k]\<close> is \<open>v\<close> there.\<close>

definition classify :: "string \<times> string \<Rightarrow> buckets \<Rightarrow> buckets" where
  "classify kv st =
     (case kv of (k, v) \<Rightarrow>
        let st1 = (if str_endswith k ''place'' \<or> str_contains ''_year'' k
                   then st\<lparr>only_deceased := True\<rparr> else st)
        in if str_endswith k ''name'' \<or> str_endswith k ''place''
             then st1\<lparr>names_and_places := AList.update k (str_lower v) (names_and_places st1)\<rparr>
           else if str_contains ''_year'' k
             then st1\<lparr>years := AList.update k v (years st1)\<rparr>
           else if k = ''sex''
             then (if str_lower v \<in> set [''m'', ''f''] then st1\<lparr>sex := Some (str_upper v)\<rparr> else st1)
           else if k = ''individual_id''
             then st1\<lparr>individual_id := Some v\<rparr>
           else st1)"

subsection \<open>Stage 2: the names and places queries\<close>

text \<open>
  The body of \<open>for search_arg in names_and_places\<close>.  The phonetic encoder
  \<open>phonetic.get_bhp_soundex\<close> is a parameter; \<open>re.compile\<close> raises on the patterns that
  \<open>re_ok\<close> rejects.
\<close>

definition resolve_name_place ::
  "(string \<Rightarrow> string) \<Rightarrow> (string \<Rightarrow> bool) \<Rightarrow> string \<Rightarrow> string \<Rightarrow> error + qval dict" where
  "resolve_name_place get_bhp_soundex re_ok search_arg val =
     (case map_of ARGS_TO_INDEX search_arg of
        None \<Rightarrow> Inl (KeyError search_arg)
      | Some field_name \<Rightarrow>
          (case str_split '';'' val of
             [] \<Rightarrow> Inl IndexError
           | search_str # modifiers \<Rightarrow>
               if search_arg = ''first_name'' then Inr [(field_name, QStr search_str)]
               else (case modifiers of
                       m # _ \<Rightarrow>
                         if m = ''prefix'' then
                           (if re_ok (''^'' @ search_str)
                            then Inr [(field_name, QRegex (''^'' @ search_str))]
                            else Inl ReError)
                         else if m = ''phonetic'' then
                           (case str_split ''_lc'' field_name of
                              [] \<Rightarrow> Inl IndexError
                            | case_sensitive_fn # _ \<Rightarrow>
                                Inr [(case_sensitive_fn @ ''S'', QStr (get_bhp_soundex search_str))])
                         else Inr [(field_name, QStr search_str)]
                     | [] \<Rightarrow> Inr [(field_name, QStr search_str)])))"

fun resolve_names_places ::
  "(string \<Rightarrow> string) \<Rightarrow> (string \<Rightarrow> bool) \<Rightarrow> string dict \<Rightarrow> error + (qval dict) dict" where
  "resolve_names_places get_bhp_soundex re_ok [] = Inr []"
| "resolve_names_places get_bhp_soundex re_ok ((search_arg, val) # rest) =
     (case resolve_name_place get_bhp_soundex re_ok search_arg val of
        Inl e \<Rightarrow> Inl e
      | Inr qf \<Rightarrow>
          (case resolve_names_places get_bhp_soundex re_ok rest of
             Inl e \<Rightarrow> Inl e
           | Inr r \<Rightarrow> Inr ((search_arg, qf) # r)))"

subsection \<open>Stage 3: the year queries\<close>

definition resolve_year :: "string \<Rightarrow> error + year_range" where
  "resolve_year val =
     (if str_contains '':'' val then
        (case str_split '':'' val of
           y # f # _ \<Rightarrow>
             (case py_int y of
                None \<Rightarrow> Inl (Abort 400 ''Year and fudge factor must be integers'')
              | Some year \<Rightarrow>
                  (case py_int f of
                     None \<Rightarrow> Inl (Abort 400 ''Year and fudge factor must be integers'')
                   | Some fudge_factor \<Rightarrow> generate_year_range year fudge_factor))
         | _ \<Rightarrow> Inl IndexError)
      else
        (case py_int val of
           None \<Rightarrow> Inl (Abort 400 ''Year must be an integer'')
         | Some year \<Rightarrow> generate_year_range year 0))"

fun resolve_years :: "string dict \<Rightarrow> error + year_range dict" where
  "resolve_years [] = Inr []"
| "resolve_years ((search_arg, val) # rest) =
     (case resolve_year val of
        Inl e \<Rightarrow> Inl e
      | Inr yr \<Rightarrow>
          (case resolve_years rest of
             Inl e \<Rightarrow> Inl e
           | Inr r \<Rightarrow> Inr ((search_arg, yr) # r)))"

subsection \<open>Stage 4: the search query\<close>

definition add_year :: "string \<times> year_range \<Rightarrow> qval dict \<Rightarrow> qval dict" where
  "add_year iy search_query =
     (case iy of (item, yr) \<Rightarrow>
        if item \<in> set [''marriage_year'', ''birth_year'', ''death_year'']
        then AList.update (if item = ''marriage_year'' then ''marriage_years'' else item)
                          (QRange (min_r yr) (max_r yr)) search_query
        else search_query)"

definition add_field :: "string \<Rightarrow> string \<times> qval \<Rightarrow> qval dict \<Rightarrow> qval dict" where
  "add_field param kv search_query =
     (case kv of (k, v) \<Rightarrow>
        if param = ''place'' then
          (let s = (if str_endswith k ''S'' then ''S'' else ''_lc'')
           in AList.update ''$or''
                (QOr [[(''BIRT_PLAC'' @ s, v)], [(''MARR_PLAC'' @ s, v)], [(''DEAT_PLAC'' @ s, v)]])
                search_query)
        else AList.update k v search_query)"

definition add_name_place :: "string \<times> qval dict \<Rightarrow> qval dict \<Rightarrow> qval dict" where
  "add_name_place pi search_query =
     (case pi of (param, item) \<Rightarrow> fold (add_field param) item search_query)"

definition add_tree_number ::
  "string dict \<Rightarrow> string option \<Rightarrow> qval dict \<Rightarrow> error + qval dict" where
  "add_tree_number search_dict iid search_query =
     (case map_of search_dict ''tree_number'' of
        None \<Rightarrow> Inr search_query
      | Some t \<Rightarrow>
          (case py_int t of
             None \<Rightarrow> Inl (Abort 400 ''Tree number must be an integer'')
           | Some n \<Rightarrow>
               (let q = AList.update ''tree_num'' (QInt n) search_query
                in case iid of
                     None \<Rightarrow> Inr q
                   | Some i \<Rightarrow> Inr (if i \<noteq> [] then AList.update ''id'' (QStr i) q else q))))"

definition build_query ::
  "(string \<Rightarrow> string) \<Rightarrow> (string \<Rightarrow> bool) \<Rightarrow> string dict \<Rightarrow> error + qval dict" where
  "build_query get_bhp_soundex re_ok search_dict =
     (let st = fold classify search_dict init_buckets
      in case resolve_names_places get_bhp_soundex re_ok (names_and_places st) of
           Inl e \<Rightarrow> Inl e
         | Inr nps \<Rightarrow>
             (case resolve_years (years st) of
                Inl e \<Rightarrow> Inl e
              | Inr yrs \<Rightarrow>
                  (let q0 = [(''archived'', QExists False)];
                       q1 = fold add_year yrs q0;
                       q2 = (case sex st of
                               None \<Rightarrow> q1
                             | Some s \<Rightarrow> if s \<noteq> [] then AList.update ''sex'' (QStr s) q1 else q1);
                       q3 = fold add_name_place nps q2
                   in case add_tree_number search_dict (individual_id st) q3 of
                        Inl e \<Rightarrow> Inl e
                      | Inr q4 \<Rightarrow>
                          Inr (if only_deceased st
                               then AList.update ''deceased'' (QBool True) q4 else q4))))"

section \<open>The result sanitizer: \<open>clean_person\<close>\<close>

text \<open>The values of a person document.\<close>

datatype jval =
    JNull
  | JBool bool
  | JInt int
  | JStr string
  | JList "jval list"
  | JDict "(string \<times> jval) list"

type_synonym person = "jval dict"

text \<open>\<open>person[api_key] = person.pop(db_key)\<close> inside \<open>try ... except KeyError: pass\<close>.\<close>

definition rename_key :: "string \<times> string \<Rightarrow> person \<Rightarrow> person" where
  "rename_key names p =
     (case names of (db_key, api_key) \<Rightarrow>
        (case map_of p db_key of
           None \<Rightarrow> p
         | Some v \<Rightarrow> AList.update api_key v (AList.delete db_key p)))"

definition gedcom_names :: "(string \<times> string) list" where
  "gedcom_names =
     [(''BIRT_PLAC'', ''birth_place''),
      (''DEAT_PLAC'', ''death_place''),
      (''MARR_PLAC'', ''marriage_place''),
      (''MARR_DATE'', ''marriage_date''),
      (''OCCU'', ''occupation''),
      (''NOTE'', ''bio'')]"

text \<open>The first two steps of \<open>clean_person\<close>: dropping \<open>_id\<close> and translating the gedcom
  names.\<close>

definition translate_names :: "person \<Rightarrow> person" where
  "translate_names p = fold rename_key gedcom_names (AList.delete ''_id'' p)"

text \<open>
  \<open>for key in person.keys(): if key not in LIVING_PERSON_WHITELISTED_KEYS: del person[key]\<close>;
  \<open>keys()\<close> is a list of its own (Python 2), so deleting while looping is safe.
\<close>

definition strip_details :: "string list \<Rightarrow> person \<Rightarrow> person" where
  "strip_details whitelist p =
     fold (\<lambda>key q. if key \<notin> set whitelist then AList.delete key q else q) (map fst p) p"

text \<open>
  \<open>is_living_person\<close> and \<open>LIVING_PERSON_WHITELISTED_KEYS\<close> are imported from
  \<open>bhs_api.persons\<close>; \<open>clean_person\<close> takes both as parameters.
\<close>

definition clean_person ::
  "(jval option \<Rightarrow> jval option \<Rightarrow> bool) \<Rightarrow> string list \<Rightarrow> person \<Rightarrow> person" where
  "clean_person is_living whitelist p =
     (let q = translate_names p
      in if is_living (map_of q ''deceased'') (map_of q ''birth_year'')
         then strip_details whitelist q else q)"

text \<open>
  Modelled from the spec: \<open>is_living_person\<close> of \<open>bhs_api/persons.py\<close>, which is not part of
  the sources at hand.  The spec gives it as
  \<open>!deceased AND NOT(birth_year present AND (current_year - birth_year) > LIVING_AGE_THRESHOLD)\<close>;
  the current year and the threshold are parameters.
\<close>

fun jtruthy :: "jval option \<Rightarrow> bool" where
  "jtruthy None = False"
| "jtruthy (Some JNull) = False"
| "jtruthy (Some (JBool b)) = b"
| "jtruthy (Some (JInt i)) = (i \<noteq> 0)"
| "jtruthy (Some (JStr s)) = (s \<noteq> [])"
| "jtruthy (Some (JList l)) = (l \<noteq> [])"
| "jtruthy (Some (JDict d)) = (d \<noteq> [])"

definition is_living_person :: "int \<Rightarrow> int \<Rightarrow> jval option \<Rightarrow> jval option \<Rightarrow> bool" where
  "is_living_person current_year LIVING_AGE_THRESHOLD deceased birth_year \<longleftrightarrow>
     \<not> jtruthy deceased \<and>
     \<not> (case birth_year of
          Some (JInt y) \<Rightarrow> current_year - y > LIVING_AGE_THRESHOLD
        | _ \<Rightarrow> False)"

section \<open>The search executor: \<open>build_search_dict\<close> and \<open>fsearch\<close>\<close>

text \<open>The body of the loop of \<open>build_search_dict\<close>; each keyword argument is a list of
  strings, and \<open>value[0]\<close> of an empty list raises.\<close>

definition search_dict_step :: "string \<times> string list \<Rightarrow> string dict \<Rightarrow> error + string dict" where
  "search_dict_step kv search_dict =
     (case kv of (key, val) \<Rightarrow>
        (case val of
           [] \<Rightarrow> Inl IndexError
         | v0 # _ \<Rightarrow>
             if v0 = [] then Inl (Abort 400 (key @ '' argument couldn't be empty''))
             else Inr (AList.update key v0 search_dict)))"

fun search_dict_loop :: "(string \<times> string list) list \<Rightarrow> string dict \<Rightarrow> error + string dict" where
  "search_dict_loop [] search_dict = Inr search_dict"
| "search_dict_loop (kv # rest) search_dict =
     (case search_dict_step kv search_dict of
        Inl e \<Rightarrow> Inl e
      | Inr d \<Rightarrow> search_dict_loop rest d)"

definition build_search_dict :: "(string \<times> string list) list \<Rightarrow> error + string dict" where
  "build_search_dict kwargs = search_dict_loop kwargs []"

text \<open>What a caller may pass as \<open>max_results\<close> or \<open>max_count_results\<close>.\<close>

datatype arg =
    ANone
  | AStr string
  | AInt int
  | AList "arg list"

text \<open>\<open>x[0] if isinstance(x, (list, tuple)) else x\<close>\<close>

definition first_of_list :: "arg \<Rightarrow> error + arg" where
  "first_of_list a =
     (case a of
        AList l \<Rightarrow> (case l of [] \<Rightarrow> Inl IndexError | x # _ \<Rightarrow> Inr x)
      | _ \<Rightarrow> Inr a)"

fun truthy :: "arg \<Rightarrow> bool" where
  "truthy ANone = False"
| "truthy (AStr s) = (s \<noteq> [])"
| "truthy (AInt n) = (n \<noteq> 0)"
| "truthy (AList l) = (l \<noteq> [])"

text \<open>\<open>int(default if not x else x)\<close>\<close>

definition int_or_default :: "int \<Rightarrow> arg \<Rightarrow> error + int" where
  "int_or_default dflt a =
     (if \<not> truthy a then Inr dflt
      else (case a of
              AInt n \<Rightarrow> Inr n
            | AStr s \<Rightarrow> (case py_int s of None \<Rightarrow> Inl ValueError | Some n \<Rightarrow> Inr n)
            | _ \<Rightarrow> Inl TypeError))"

text \<open>
  Modelled from the spec: the cursor of the person collection (the database driver is an
  external collaborator).  The spec's wording is "skip \<open>start\<close> records, limit to
  \<open>max_results\<close>"; a cursor is the list of the documents it yields, and \<open>count\<close> is its
  length.
\<close>

definition cursor_skip :: "int \<Rightarrow> 'a list \<Rightarrow> 'a list" where
  "cursor_skip n rs = drop (nat n) rs"

definition cursor_limit :: "int \<Rightarrow> 'a list \<Rightarrow> 'a list" where
  "cursor_limit n rs = take (nat n) rs"

text \<open>The projection that \<open>fsearch\<close> passes to \<open>find\<close> (every field with value 1).\<close>

definition projection :: "string list" where
  "projection =
     [''name'', ''parents'', ''partners'', ''siblings'', ''tree_num'', ''id'', ''sex'',
      ''tree_version'', ''Slug'', ''birth_year'', ''death_year'', ''BIRT_PLAC'', ''DEAT_PLAC'',
      ''deceased'', ''marriage_years'']"

text \<open>\<open>results.skip(int(search_dict['start']))\<close> when \<open>'start' in search_dict\<close>; the \<open>int\<close> is
  outside any \<open>try\<close>.\<close>

definition skip_start :: "string dict \<Rightarrow> person list \<Rightarrow> error + person list" where
  "skip_start search_dict results =
     (case map_of search_dict ''start'' of
        None \<Rightarrow> Inr results
      | Some s \<Rightarrow>
          (case py_int s of
             None \<Rightarrow> Inl ValueError
           | Some n \<Rightarrow> Inr (cursor_skip n results)))"

text \<open>
  \<open>fsearch(max_results, db, max_count_results, **kwargs)\<close>.  The collection is given by
  \<open>collection_find\<close>, with \<open>collection_find q None\<close> for \<open>collection.find(q)\<close> and \<open>collection_find q (Some p)\<close> for
  \<open>collection.find(q, p)\<close>.
\<close>

definition fsearch ::
  "(string \<Rightarrow> string) \<Rightarrow> (string \<Rightarrow> bool) \<Rightarrow> (jval option \<Rightarrow> jval option \<Rightarrow> bool) \<Rightarrow> string list \<Rightarrow>
   (qval dict \<Rightarrow> string list option \<Rightarrow> person list) \<Rightarrow>
   arg \<Rightarrow> arg \<Rightarrow> (string \<times> string list) list \<Rightarrow> error + (int \<times> person list)" where
  "fsearch get_bhp_soundex re_ok is_living whitelist collection_find max_results max_count_results kwargs =
     (case first_of_list max_results of Inl e \<Rightarrow> Inl e | Inr mr \<Rightarrow>
      case first_of_list max_count_results of Inl e \<Rightarrow> Inl e | Inr mc \<Rightarrow>
      case int_or_default MAX_RESULTS mr of Inl e \<Rightarrow> Inl e | Inr max_results' \<Rightarrow>
      case int_or_default MAX_COUNT_RESULTS mc of Inl e \<Rightarrow> Inl e | Inr max_count_results' \<Rightarrow>
      case build_search_dict kwargs of Inl e \<Rightarrow> Inl e | Inr search_dict \<Rightarrow>
      case build_query get_bhp_soundex re_ok search_dict of Inl e \<Rightarrow> Inl e | Inr search_query \<Rightarrow>
        (let total = (if max_count_results' = - 1
                      then int (length (collection_find search_query None))
                      else int (length (cursor_limit max_count_results' (collection_find search_query None))));
             results = collection_find search_query (Some projection)
         in case skip_start search_dict results of
              Inl e \<Rightarrow> Inl e
            | Inr results' \<Rightarrow>
                Inr (total, map (clean_person is_living whitelist)
                              (cursor_limit max_results' results'))))"

section \<open>Notions used to state the properties\<close>

text \<open>The two tests of the sorting loop: a key goes to \<open>names_and_places\<close>, or else to
  \<open>years\<close>.\<close>

definition is_name_place_key :: "string \<Rightarrow> bool" where
  "is_name_place_key k \<longleftrightarrow> str_endswith k ''name'' \<or> str_endswith k ''place''"

definition is_year_key :: "string \<Rightarrow> bool" where
  "is_year_key k \<longleftrightarrow> \<not> is_name_place_key k \<and> str_contains ''_year'' k"

text \<open>
  The spec's reading of a name or place value \<open>v\<close>: the modifier is the piece after the
  first \<open>;\<close> of the lower-cased value, the search string the piece before it.  The match is
  a prefix match (a regular expression anchored at the start), a phonetic match (the code
  of the search string) or an exact match; the index field carries \<open>S\<close> for a phonetic match
  and \<open>_lc\<close> otherwise.  These follow the spec's words; the theorems below compare them with
  what \<open>build_query\<close> computes.
\<close>

definition modifier_of :: "string \<Rightarrow> string option" where
  "modifier_of val = (case str_split '';'' val of s # m # _ \<Rightarrow> Some m | _ \<Rightarrow> None)"

definition match_clause :: "(string \<Rightarrow> string) \<Rightarrow> string \<Rightarrow> qval" where
  "match_clause encode v =
     (let val = str_lower v; s = takeWhile (\<lambda>c. c \<noteq> CHR '';'') val
      in if modifier_of val = Some ''prefix'' then QRegex (''^'' @ s)
         else if modifier_of val = Some ''phonetic'' then QStr (encode s)
         else QStr s)"

definition index_suffix :: "string \<Rightarrow> string" where
  "index_suffix v = (if modifier_of (str_lower v) = Some ''phonetic'' then ''S'' else ''_lc'')"

text \<open>The search parameter whose clause can be stored under a given key of the filter by the
  names and places loop (the empty string when there is none).\<close>

definition param_of_key :: "string \<Rightarrow> string" where
  "param_of_key k =
     (if k = ''$or'' then ''place''
      else if k = ''name_lc.0'' then ''first_name''
      else if k \<in> set [''name_lc.1'', ''nameS''] then ''last_name''
      else if k \<in> set [''BIRT_PLAC_lc'', ''BIRT_PLACS''] then ''birth_place''
      else if k \<in> set [''MARR_PLAC_lc'', ''MARR_PLACS''] then ''marriage_place''
      else if k \<in> set [''DEAT_PLAC_lc'', ''DEAT_PLACS''] then ''death_place''
      else if k \<in> set [''sex'', ''sexS''] then ''sex''
      else if k \<in> set [''tree_num'', ''tree_numS''] then ''tree_number''
      else [])"

section \<open>Properties of the Python primitives\<close>

subsection \<open>Strings\<close>

lemma str_contains_char: "str_contains [c] s \<longleftrightarrow> c \<in> set s"
  by (auto simp: str_contains_def sublist_def in_set_conv_decomp)

lemma str_split_no_sep: "c \<notin> set s \<Longrightarrow> str_split [c] s = [s]"
  by (induction s) auto

lemma str_split_at: "c \<notin> set a \<Longrightarrow> str_split [c] (a @ c # b) = a # str_split [c] b"
  by (induction a) auto


lemma str_split_nonempty: "str_split sep s \<noteq> []"
  by (induction sep s rule: str_split.induct) (auto split: list.splits)

subsection \<open>\<open>int(str(i))\<close> gives \<open>i\<close> back\<close>

lemma digit_of_digit_char: "d < 10 \<Longrightarrow> digit_of (digit_char d) = Some d"
  by (simp add: digit_of_def digit_char_def)

lemma parse_digits_snoc:
  "parse_digits acc (xs @ [c]) =
     (case parse_digits acc xs of
        None \<Rightarrow> None
      | Some n \<Rightarrow> (case digit_of c of None \<Rightarrow> None | Some d \<Rightarrow> Some (10 * n + d)))"
  by (induction xs arbitrary: acc) (auto split: option.splits)

lemma parse_digits_of_nat: "parse_digits 0 (digits_of_nat n) = Some n"
proof (induction n rule: digits_of_nat.induct)
  case (1 n)
  show ?case
  proof (cases "n < 10")
    case True
    then show ?thesis by (simp add: digit_of_digit_char)
  next
    case False
    then have "parse_digits 0 (digits_of_nat (n div 10)) = Some (n div 10)"
      using 1 by simp
    moreover have "digits_of_nat n = digits_of_nat (n div 10) @ [digit_char (n mod 10)]"
      using False by (subst digits_of_nat.simps) simp
    ultimately show ?thesis
      by (simp add: parse_digits_snoc digit_of_digit_char del: digits_of_nat.simps)
  qed
qed

lemma digit_char_plain:
  assumes "d < 10"
  shows "\<not> is_space (digit_char d) \<and> digit_char d \<noteq> CHR ''-'' \<and> digit_char d \<noteq> CHR ''+''"
proof -
  have v: "(of_char (digit_char d) :: nat) = 48 + d"
    using assms by (simp add: digit_char_def)
  have "c = digit_char d \<Longrightarrow> (of_char c :: nat) \<ge> 48" for c
    using v by simp
  then show ?thesis
    by (auto simp: is_space_def)
qed

lemma digits_of_nat_shape:
  "\<exists>c cs. digits_of_nat n = c # cs \<and> \<not> is_space c \<and> c \<noteq> CHR ''-'' \<and> c \<noteq> CHR ''+''
      \<and> \<not> is_space (last (c # cs))"
proof (induction n rule: digits_of_nat.induct)
  case (1 n)
  show ?case
  proof (cases "n < 10")
    case True
    then show ?thesis using digit_char_plain [of n] by simp
  next
    case False
    then obtain c cs where h: "digits_of_nat (n div 10) = c # cs" "\<not> is_space c"
        "c \<noteq> CHR ''-''" "c \<noteq> CHR ''+''"
      using 1 by blast
    have "digits_of_nat n = digits_of_nat (n div 10) @ [digit_char (n mod 10)]"
      using False by (subst digits_of_nat.simps) simp
    then have "digits_of_nat n = c # (cs @ [digit_char (n mod 10)])"
      using h by simp
    then show ?thesis
      using h digit_char_plain [of "n mod 10"] by (simp del: digits_of_nat.simps)
  qed
qed

lemma str_strip_id:
  "\<not> is_space c \<Longrightarrow> \<not> is_space (last (c # cs)) \<Longrightarrow> str_strip (c # cs) = c # cs"
proof -
  assume a: "\<not> is_space c" and b: "\<not> is_space (last (c # cs))"
  have "rev (c # cs) = last (c # cs) # rev (butlast (c # cs))"
    by (metis append_butlast_last_id list.distinct(1) rev.simps(2) rev_append rev_rev_ident rev_singleton_conv append_Nil rev_eq_Cons_iff)
  then have "dropWhile is_space (rev (c # cs)) = rev (c # cs)"
    using b by (metis dropWhile.simps(2))
  then show ?thesis
    using a by (simp add: str_strip_def)
qed

lemma py_int_digits: "py_int (digits_of_nat n) = Some (int n)"
proof -
  obtain c cs where h: "digits_of_nat n = c # cs" "\<not> is_space c" "c \<noteq> CHR ''-''"
      "c \<noteq> CHR ''+''" "\<not> is_space (last (c # cs))"
    using digits_of_nat_shape by blast
  have "str_strip (digits_of_nat n) = c # cs"
    using h str_strip_id by simp
  moreover have "parse_digits 0 (c # cs) = Some n"
    using parse_digits_of_nat [of n] h by simp
  ultimately show ?thesis
    using h by (simp add: py_int_def del: parse_digits.simps)
qed

lemma py_int_minus_digits: "py_int (CHR ''-'' # digits_of_nat n) = Some (- int n)"
proof -
  obtain c cs where h: "digits_of_nat n = c # cs" "\<not> is_space (last (c # cs))"
    using digits_of_nat_shape by blast
  have "\<not> is_space CHR ''-''"
    by (simp add: is_space_def)
  moreover have "\<not> is_space (last (CHR ''-'' # c # cs))"
    using h by simp
  ultimately have "str_strip (CHR ''-'' # c # cs) = CHR ''-'' # c # cs"
    by (rule str_strip_id)
  then show ?thesis
    using h parse_digits_of_nat [of n] by (simp add: py_int_def del: parse_digits.simps)
qed

lemma py_int_py_str: "py_int (py_str i) = Some i"
  by (simp add: py_str_def py_int_digits py_int_minus_digits del: digits_of_nat.simps)

lemma generate_year_range_eq:
  "generate_year_range year fudge_factor =
     Inr \<lparr>min_r = year - fudge_factor, max_r = year + fudge_factor\<rparr>"
  by (simp add: generate_year_range_def py_int_py_str)

subsection \<open>What \<open>int\<close> accepts\<close>

lemma parse_digits_chars: "parse_digits acc s = Some n \<Longrightarrow> c \<in> set s \<Longrightarrow> digit_of c \<noteq> None"
  by (induction s arbitrary: acc) (auto split: option.splits)

lemma in_set_take_or_drop: "c \<in> set s \<Longrightarrow> P c \<or> c \<in> set (dropWhile P s)"
  by (induction s) auto

lemma str_strip_chars: "c \<in> set s \<Longrightarrow> \<not> is_space c \<Longrightarrow> c \<in> set (str_strip s)"
proof -
  assume a: "c \<in> set s" and b: "\<not> is_space c"
  have "c \<in> set (dropWhile is_space s)"
    using a b in_set_take_or_drop [of c s is_space] by simp
  then have "c \<in> set (rev (dropWhile is_space s))"
    by simp
  then have "c \<in> set (dropWhile is_space (rev (dropWhile is_space s)))"
    using b in_set_take_or_drop [of c "rev (dropWhile is_space s)" is_space] by blast
  then show ?thesis
    by (simp add: str_strip_def)
qed

lemma py_int_chars:
  assumes "py_int s = Some n" and "c \<in> set s"
  shows "is_space c \<or> c = CHR ''-'' \<or> c = CHR ''+'' \<or> digit_of c \<noteq> None"
proof (cases "is_space c")
  case True
  then show ?thesis by simp
next
  case False
  then have m: "c \<in> set (str_strip s)"
    using assms(2) by (rule str_strip_chars [rotated])
  then obtain x xs where t: "str_strip s = x # xs"
    by (cases "str_strip s") auto
  show ?thesis
  proof (cases "c = x")
    case True
    have "x = CHR ''-'' \<or> x = CHR ''+'' \<or> digit_of x \<noteq> None"
      using assms(1) t by (auto simp: py_int_def split: if_splits option.splits)
    then show ?thesis using True by simp
  next
    case False
    then have "c \<in> set xs" using m t by simp
    moreover have "\<exists>a k. parse_digits a xs = Some k"
      using assms(1) t by (auto simp: py_int_def split: if_splits option.splits)
    ultimately show ?thesis
      using parse_digits_chars by blast
  qed
qed

lemma py_int_no_colon: "py_int s = Some n \<Longrightarrow> CHR '':'' \<notin> set s"
  using py_int_chars [of s n "CHR '':''"] by (auto simp: is_space_def digit_of_def)

section \<open>Year ranges\<close>

lemma resolve_year_bare:
  "py_int y = Some Y \<Longrightarrow> resolve_year y = Inr \<lparr>min_r = Y, max_r = Y\<rparr>"
  using py_int_no_colon [of y Y]
  by (simp add: resolve_year_def str_contains_char generate_year_range_eq)

lemma resolve_year_fudge:
  assumes "py_int y = Some Y" and "py_int f = Some F"
  shows "resolve_year (y @ '':'' @ f) = Inr \<lparr>min_r = Y - F, max_r = Y + F\<rparr>"
proof -
  have "CHR '':'' \<notin> set y" and "CHR '':'' \<notin> set f"
    using assms py_int_no_colon by blast+
  then have "str_split '':'' (y @ '':'' @ f) = [y, f]"
    by (simp add: str_split_at str_split_no_sep)
  then show ?thesis
    using assms by (simp add: resolve_year_def str_contains_char generate_year_range_eq)
qed

lemma resolve_year_not_int:
  "CHR '':'' \<notin> set v \<Longrightarrow> py_int v = None \<Longrightarrow>
     resolve_year v = Inl (Abort 400 ''Year must be an integer'')"
  by (simp add: resolve_year_def str_contains_char)

text \<open>The filter for a single recognized year parameter.\<close>

lemma known_year_keys:
  "is_year_key ''birth_year''" "is_year_key ''death_year''" "is_year_key ''marriage_year''"
  by code_simp+

lemma build_query_year_single:
  assumes "resolve_year val = Inr r"
    and "(k, fld) \<in> set [(''birth_year'', ''birth_year''), (''death_year'', ''death_year''),
                          (''marriage_year'', ''marriage_years'')]"
  shows "build_query sx re [(k, val)] =
           Inr [(''archived'', QExists False), (fld, QRange (min_r r) (max_r r)),
                (''deceased'', QBool True)]"
proof -
  have yk: "is_year_key k"
    using assms(2) known_year_keys by auto
  then have st: "classify (k, val) init_buckets =
        \<lparr>names_and_places = [], years = [(k, val)], sex = None, individual_id = None,
         only_deceased = True\<rparr>"
    by (simp add: classify_def is_year_key_def is_name_place_key_def init_buckets_def Let_def)
  have q1: "add_year (k, r) [(''archived'', QExists False)]
              = [(''archived'', QExists False), (fld, QRange (min_r r) (max_r r))]"
    using assms(2) by (auto simp: add_year_def)
  have tn: "k \<noteq> ''tree_number''"
    using assms(2) by auto
  have fd: "fld \<noteq> ''deceased''"
    using assms(2) by auto
  show ?thesis
    using assms(1) fd tn
    by (simp add: build_query_def st Let_def q1 add_tree_number_def)
qed

text \<open>
  C3 (amended).  For a year value \<open>"Y"\<close> or \<open>"Y:F"\<close> whose parts \<open>int\<close> accepts, the compiled
  range has \<open>min = Y - F\<close> and \<open>max = Y + F\<close>, with \<open>F = 0\<close> when absent; \<open>min \<le> max\<close> holds
  exactly when the fudge factor is not negative.  For \<open>birth_year\<close>, \<open>death_year\<close> and
  \<open>marriage_year\<close> this range is the \<open>$gte\<close>/\<open>$lte\<close> clause of the filter.
\<close>

theorem year_range_of_year_and_fudge:
  assumes "py_int y = Some Y" and "py_int f = Some F"
  shows "resolve_year y = Inr \<lparr>min_r = Y - 0, max_r = Y + 0\<rparr> \<and>
         resolve_year (y @ '':'' @ f) = Inr \<lparr>min_r = Y - F, max_r = Y + F\<rparr> \<and>
         (case resolve_year (y @ '':'' @ f) of
            Inr r \<Rightarrow> (min_r r \<le> max_r r \<longleftrightarrow> 0 \<le> F)
          | Inl e \<Rightarrow> False) \<and>
         (\<forall>(k, fld) \<in> set [(''birth_year'', ''birth_year''), (''death_year'', ''death_year''),
                              (''marriage_year'', ''marriage_years'')].
            build_query sx re [(k, y @ '':'' @ f)] =
              Inr [(''archived'', QExists False), (fld, QRange (Y - F) (Y + F)),
                   (''deceased'', QBool True)])"
proof -
  have r: "resolve_year (y @ '':'' @ f) = Inr \<lparr>min_r = Y - F, max_r = Y + F\<rparr>"
    using assms by (rule resolve_year_fudge)
  have "build_query sx re [(k, y @ '':'' @ f)] =
              Inr [(''archived'', QExists False), (fld, QRange (Y - F) (Y + F)),
                   (''deceased'', QBool True)]"
    if "(k, fld) \<in> set [(''birth_year'', ''birth_year''), (''death_year'', ''death_year''),
                          (''marriage_year'', ''marriage_years'')]" for k fld
    using build_query_year_single [OF r that, of sx re] by simp
  then have "\<forall>(k, fld) \<in> set [(''birth_year'', ''birth_year''), (''death_year'', ''death_year''),
                              (''marriage_year'', ''marriage_years'')].
            build_query sx re [(k, y @ '':'' @ f)] =
              Inr [(''archived'', QExists False), (fld, QRange (Y - F) (Y + F)),
                   (''deceased'', QBool True)]"
    by (intro ballI) (simp only: split_paired_all case_prod_conv)
  then show ?thesis
    using resolve_year_bare [OF assms(1)] r by simp
qed

theorem year_range_of_year_and_fudge_witness:
  "py_int ''1907'' = Some 1907 \<and> py_int ''2'' = Some 2 \<and>
   resolve_year ''1907'' = Inr \<lparr>min_r = 1907, max_r = 1907\<rparr> \<and>
   resolve_year ''1907:2'' = Inr \<lparr>min_r = 1905, max_r = 1909\<rparr> \<and>
   build_query id (\<lambda>_. True) [(''marriage_year'', ''1907:2'')] =
     Inr [(''archived'', QExists False), (''marriage_years'', QRange 1905 1909),
          (''deceased'', QBool True)]"
proof -
  have y: "py_int ''1907'' = Some 1907" by code_simp
  have f: "py_int ''2'' = Some 2" by code_simp
  show ?thesis
    using year_range_of_year_and_fudge [OF y f, of id "\<lambda>_. True"] y f by simp
qed

text \<open>The range compiled for \<open>"1900:-5"\<close> has its minimum above its maximum.\<close>

theorem negative_fudge_counterexample:
  "py_int ''1900'' = Some 1900 \<and> py_int ''-5'' = Some (- 5) \<and>
   resolve_year ''1900:-5'' = Inr \<lparr>min_r = 1905, max_r = 1895\<rparr> \<and>
   \<not> min_r \<lparr>min_r = 1905, max_r = 1895\<rparr> \<le> max_r \<lparr>min_r = 1905, max_r = 1895\<rparr>"
proof -
  have y: "py_int ''1900'' = Some 1900" by code_simp
  have f: "py_int ''-5'' = Some (- 5)" by code_simp
  have "resolve_year (''1900'' @ '':'' @ ''-5'') = Inr \<lparr>min_r = 1900 - (- 5), max_r = 1900 + (- 5)\<rparr>"
    using y f by (rule resolve_year_fudge)
  then show ?thesis
    using y f by simp
qed

section \<open>The sorting loop\<close>

lemma classify_names_and_places:
  "map_of (names_and_places (classify (k', v') st)) k =
     (if is_name_place_key k' \<and> k = k' then Some (str_lower v') else map_of (names_and_places st) k)"
  by (simp add: classify_def is_name_place_key_def Let_def update_conv')

lemma classify_years:
  "map_of (years (classify (k', v') st)) k =
     (if is_year_key k' \<and> k = k' then Some v' else map_of (years st) k)"
  by (simp add: classify_def is_name_place_key_def is_year_key_def Let_def update_conv')

lemma classify_only_deceased:
  "only_deceased (classify (k, v) st) \<longleftrightarrow>
     only_deceased st \<or> str_endswith k ''place'' \<or> str_contains ''_year'' k"
  by (simp add: classify_def Let_def)

lemma fold_classify_names_absent:
  "k \<notin> fst ` set d \<Longrightarrow>
     map_of (names_and_places (fold classify d st)) k = map_of (names_and_places st) k"
proof (induction d arbitrary: st)
  case Nil
  then show ?case by simp
next
  case (Cons kv d)
  obtain k' v' where kv: "kv = (k', v')" by (cases kv)
  then have "k \<noteq> k'" and "k \<notin> fst ` set d"
    using Cons.prems by auto
  then show ?case
    using Cons.IH [of "classify kv st"] kv by (simp add: classify_names_and_places)
qed

lemma fold_classify_names_present:
  "distinct (map fst d) \<Longrightarrow> (k, v) \<in> set d \<Longrightarrow> is_name_place_key k \<Longrightarrow>
     map_of (names_and_places (fold classify d st)) k = Some (str_lower v)"
proof (induction d arbitrary: st)
  case Nil
  then show ?case by simp
next
  case (Cons kv d)
  obtain k' v' where kv: "kv = (k', v')" by (cases kv)
  show ?case
  proof (cases "kv = (k, v)")
    case True
    then have "k \<notin> fst ` set d"
      using Cons.prems(1) by auto
    then show ?thesis
      using True Cons.prems(3)
      by (simp add: fold_classify_names_absent classify_names_and_places)
  next
    case False
    then have "(k, v) \<in> set d" and "distinct (map fst d)"
      using Cons.prems by auto
    then show ?thesis
      using Cons.IH Cons.prems(3) by simp
  qed
qed

lemma fold_classify_years_absent:
  "k \<notin> fst ` set d \<Longrightarrow> map_of (years (fold classify d st)) k = map_of (years st) k"
proof (induction d arbitrary: st)
  case Nil
  then show ?case by simp
next
  case (Cons kv d)
  obtain k' v' where kv: "kv = (k', v')" by (cases kv)
  then have "k \<noteq> k'" and "k \<notin> fst ` set d"
    using Cons.prems by auto
  then show ?case
    using Cons.IH [of "classify kv st"] kv by (simp add: classify_years)
qed

lemma fold_classify_years_present:
  "distinct (map fst d) \<Longrightarrow> (k, v) \<in> set d \<Longrightarrow> is_year_key k \<Longrightarrow>
     map_of (years (fold classify d st)) k = Some v"
proof (induction d arbitrary: st)
  case Nil
  then show ?case by simp
next
  case (Cons kv d)
  show ?case
  proof (cases "kv = (k, v)")
    case True
    then have "k \<notin> fst ` set d"
      using Cons.prems(1) by auto
    then show ?thesis
      using True Cons.prems(3)
      by (simp add: fold_classify_years_absent classify_years)
  next
    case False
    then have "(k, v) \<in> set d" and "distinct (map fst d)"
      using Cons.prems by auto
    then show ?thesis
      using Cons.IH Cons.prems(3) by simp
  qed
qed

lemma fold_classify_only_deceased:
  "only_deceased (fold classify d st) \<longleftrightarrow>
     only_deceased st \<or> (\<exists>k \<in> fst ` set d. str_endswith k ''place'' \<or> str_contains ''_year'' k)"
proof (induction d arbitrary: st)
  case Nil
  then show ?case by simp
next
  case (Cons kv d)
  obtain k v where kv: "kv = (k, v)" by (cases kv)
  show ?case
    using Cons.IH [of "classify kv st"] kv by (auto simp: classify_only_deceased)
qed

lemma classify_keys:
  "fst ` set (names_and_places (classify (k, v) st)) =
     fst ` set (names_and_places st) \<union> (if is_name_place_key k then {k} else {})"
  by (auto simp: classify_def is_name_place_key_def Let_def dom_update)

lemma fold_classify_names_keys:
  "fst ` set (names_and_places (fold classify d st)) =
     fst ` set (names_and_places st) \<union> {k \<in> fst ` set d. is_name_place_key k}"
proof (induction d arbitrary: st)
  case Nil
  then show ?case by simp
next
  case (Cons kv d)
  obtain k v where kv: "kv = (k, v)" by (cases kv)
  show ?case
    using Cons.IH [of "classify kv st"] kv by (auto simp: classify_keys)
qed

lemma classify_ignored:
  "\<not> is_name_place_key k \<Longrightarrow> \<not> str_contains ''_year'' k \<Longrightarrow> k \<noteq> ''sex'' \<Longrightarrow>
     k \<noteq> ''individual_id'' \<Longrightarrow> classify (k, v) st = st"
  by (simp add: classify_def is_name_place_key_def Let_def)

lemma classify_names_distinct:
  "distinct (map fst (names_and_places st)) \<Longrightarrow>
     distinct (map fst (names_and_places (classify kv st)))"
  by (cases kv) (simp add: classify_def Let_def distinct_update)

lemma fold_classify_names_distinct:
  "distinct (map fst (names_and_places st)) \<Longrightarrow>
     distinct (map fst (names_and_places (fold classify d st)))"
  by (induction d arbitrary: st) (simp_all add: classify_names_distinct)

section \<open>Resolving names, places and years\<close>

lemma resolve_names_places_lookup:
  "resolve_names_places sx re nps = Inr r \<Longrightarrow> map_of nps k = Some v \<Longrightarrow>
     \<exists>qf. resolve_name_place sx re k v = Inr qf \<and> map_of r k = Some qf"
proof (induction nps arbitrary: r)
  case Nil
  then show ?case by simp
next
  case (Cons kv nps)
  obtain k' v' where kv: "kv = (k', v')" by (cases kv)
  from Cons.prems(1) kv obtain qf r' where
    h: "resolve_name_place sx re k' v' = Inr qf" "resolve_names_places sx re nps = Inr r'"
       "r = (k', qf) # r'"
    by (auto split: sum.splits)
  show ?case
  proof (cases "k = k'")
    case True
    then show ?thesis using Cons.prems(2) kv h by simp
  next
    case False
    then have "map_of nps k = Some v"
      using Cons.prems(2) kv by simp
    then show ?thesis
      using Cons.IH [OF h(2)] h(3) False by simp
  qed
qed

lemma resolve_names_places_entries:
  "resolve_names_places sx re nps = Inr r \<Longrightarrow> (p, qf) \<in> set r \<Longrightarrow>
     \<exists>v. (p, v) \<in> set nps \<and> resolve_name_place sx re p v = Inr qf"
proof (induction nps arbitrary: r)
  case Nil
  then show ?case by simp
next
  case (Cons kv nps)
  obtain k' v' where kv: "kv = (k', v')" by (cases kv)
  from Cons.prems(1) kv obtain qf' r' where
    h: "resolve_name_place sx re k' v' = Inr qf'" "resolve_names_places sx re nps = Inr r'"
       "r = (k', qf') # r'"
    by (auto split: sum.splits)
  show ?case
  proof (cases "(p, qf) = (k', qf')")
    case True
    then show ?thesis using kv h by auto
  next
    case False
    then have "(p, qf) \<in> set r'"
      using Cons.prems(2) h(3) by auto
    then show ?thesis
      using Cons.IH [OF h(2)] by auto
  qed
qed

lemma resolve_names_places_keys:
  "resolve_names_places sx re nps = Inr r \<Longrightarrow> map fst r = map fst nps"
proof (induction nps arbitrary: r)
  case Nil
  then show ?case by simp
next
  case (Cons kv nps)
  obtain k' v' where kv: "kv = (k', v')" by (cases kv)
  from Cons.prems(1) kv obtain qf' r' where
    h: "resolve_names_places sx re nps = Inr r'" "r = (k', qf') # r'"
    by (auto split: sum.splits)
  then show ?case
    using Cons.IH [OF h(1)] kv by simp
qed

lemma resolve_names_places_fails:
  "(k, v) \<in> set nps \<Longrightarrow> resolve_name_place sx re k v = Inl e \<Longrightarrow>
     \<exists>e'. resolve_names_places sx re nps = Inl e'"
proof (induction nps)
  case Nil
  then show ?case by simp
next
  case (Cons kv nps)
  obtain k' v' where kv: "kv = (k', v')" by (cases kv)
  show ?case
  proof (cases "kv = (k, v)")
    case True
    then show ?thesis using Cons.prems(2) by simp
  next
    case False
    then have "\<exists>e'. resolve_names_places sx re nps = Inl e'"
      using Cons by simp
    then show ?thesis
      using kv by (auto split: sum.splits)
  qed
qed

lemma resolve_years_fails:
  "(k, v) \<in> set ys \<Longrightarrow> resolve_year v = Inl e \<Longrightarrow> \<exists>e'. resolve_years ys = Inl e'"
proof (induction ys)
  case Nil
  then show ?case by simp
next
  case (Cons kv ys)
  obtain k' v' where kv: "kv = (k', v')" by (cases kv)
  show ?case
  proof (cases "kv = (k, v)")
    case True
    then show ?thesis using Cons.prems(2) by simp
  next
    case False
    then have "\<exists>e'. resolve_years ys = Inl e'"
      using Cons by simp
    then show ?thesis
      using kv by (auto split: sum.splits)
  qed
qed

lemma resolve_name_place_unknown:
  "map_of ARGS_TO_INDEX k = None \<Longrightarrow> resolve_name_place sx re k v = Inl (KeyError k)"
  by (simp add: resolve_name_place_def)

lemma split_lc_fields:
  "str_split ''_lc'' ''name_lc.0'' = [''name'', ''.0'']"
  "str_split ''_lc'' ''name_lc.1'' = [''name'', ''.1'']"
  "str_split ''_lc'' ''sex'' = [''sex'']"
  "str_split ''_lc'' ''BIRT_PLAC_lc'' = [''BIRT_PLAC'', '''']"
  "str_split ''_lc'' ''MARR_PLAC_lc'' = [''MARR_PLAC'', '''']"
  "str_split ''_lc'' ''tree_num'' = [''tree_num'']"
  "str_split ''_lc'' ''DEAT_PLAC_lc'' = [''DEAT_PLAC'', '''']"
  "str_split ''_lc'' ''filler_lc'' = [''filler'', '''']"
  by code_simp+

lemma str_split_head: "\<exists>rest. str_split [c] s = takeWhile (\<lambda>x. x \<noteq> c) s # rest"
  by (induction s) auto

lemma lower_char_semicolon: "lower_char c = CHR '';'' \<longleftrightarrow> c = CHR '';''"
proof
  assume a: "lower_char c = CHR '';''"
  show "c = CHR '';''"
  proof (rule ccontr)
    assume n: "c \<noteq> CHR '';''"
    then have u: "65 \<le> (of_char c :: nat) \<and> (of_char c :: nat) \<le> 90"
      using a by (auto simp: lower_char_def split: if_splits)
    then have "(of_char (lower_char c) :: nat) = of_char c + 32"
      by (simp add: lower_char_def)
    then show False using a u by simp
  qed
next
  assume "c = CHR '';''"
  then show "lower_char c = CHR '';''" by (simp add: lower_char_def)
qed

lemma lower_before_semicolon:
  "takeWhile (\<lambda>c. c \<noteq> CHR '';'') (str_lower v) = str_lower (takeWhile (\<lambda>c. c \<noteq> CHR '';'') v)"
  by (simp add: str_lower_def takeWhile_map comp_def lower_char_semicolon)

lemma resolve_name_place_first_name:
  "resolve_name_place sx re ''first_name'' val =
     Inr [(''name_lc.0'', QStr (takeWhile (\<lambda>c. c \<noteq> CHR '';'') val))]"
proof -
  obtain rest where "str_split '';'' val = takeWhile (\<lambda>c. c \<noteq> CHR '';'') val # rest"
    using str_split_head by blast
  then show ?thesis
    by (simp add: resolve_name_place_def ARGS_TO_INDEX_def)
qed

lemma resolve_name_place_Inr:
  assumes "resolve_name_place sx re p (str_lower v) = Inr qf"
    and "p \<noteq> ''first_name''"
    and "map_of ARGS_TO_INDEX p = Some fn"
    and "str_split ''_lc'' fn = stem # pieces"
  shows "qf = [(if index_suffix v = ''S'' then stem @ ''S'' else fn, match_clause sx v)]"
proof -
  obtain rest where s: "str_split '';'' (str_lower v)
       = takeWhile (\<lambda>c. c \<noteq> CHR '';'') (str_lower v) # rest"
    using str_split_head by blast
  show ?thesis
  proof (cases rest)
    case Nil
    then show ?thesis
      using assms s
      by (simp add: resolve_name_place_def match_clause_def index_suffix_def modifier_of_def)
  next
    case (Cons m ms)
    then show ?thesis
      using assms s
      by (auto simp: resolve_name_place_def match_clause_def index_suffix_def modifier_of_def
               split: if_splits)
  qed
qed

lemma resolve_name_place_two_fields:
  assumes "resolve_name_place sx re p val = Inr qf"
  shows "\<exists>fn stem pieces c. map_of ARGS_TO_INDEX p = Some fn \<and> str_split ''_lc'' fn = stem # pieces \<and>
           (qf = [(fn, c)] \<or> qf = [(stem @ ''S'', c)])"
proof -
  obtain fn where fn: "map_of ARGS_TO_INDEX p = Some fn"
    using assms by (auto simp: resolve_name_place_def split: option.splits)
  obtain stem pieces where st: "str_split ''_lc'' fn = stem # pieces"
    using str_split_nonempty [of "''_lc''" fn] by (cases "str_split ''_lc'' fn") auto
  obtain s mods where sp: "str_split '';'' val = s # mods"
    using str_split_nonempty [of "'';''" val] by (cases "str_split '';'' val") auto
  have "\<exists>c. qf = [(fn, c)] \<or> qf = [(stem @ ''S'', c)]"
  proof (cases mods)
    case Nil
    then show ?thesis
      using assms by (simp add: resolve_name_place_def fn st sp split: if_splits) blast+
  next
    case (Cons m ms)
    then show ?thesis
      using assms by (simp add: resolve_name_place_def fn st sp split: if_splits) blast+
  qed
  then show ?thesis
    using fn st by blast
qed


lemma param_of_key_values:
  "param_of_key ''$or'' = ''place''"
  "param_of_key ''name_lc.0'' = ''first_name''"
  "param_of_key ''name_lc.1'' = ''last_name''"
  "param_of_key ''nameS'' = ''last_name''"
  "param_of_key ''BIRT_PLAC_lc'' = ''birth_place''"
  "param_of_key ''BIRT_PLACS'' = ''birth_place''"
  "param_of_key ''MARR_PLAC_lc'' = ''marriage_place''"
  "param_of_key ''MARR_PLACS'' = ''marriage_place''"
  "param_of_key ''DEAT_PLAC_lc'' = ''death_place''"
  "param_of_key ''DEAT_PLACS'' = ''death_place''"
  "param_of_key ''sex'' = ''sex''"
  "param_of_key ''sexS'' = ''sex''"
  "param_of_key ''tree_num'' = ''tree_number''"
  "param_of_key ''tree_numS'' = ''tree_number''"
  by (simp_all add: param_of_key_def)

lemma args_cases:
  assumes "map_of ARGS_TO_INDEX p = Some fn"
  shows "p = ''first_name'' \<and> fn = ''name_lc.0'' \<or> p = ''last_name'' \<and> fn = ''name_lc.1'' \<or>
         p = ''sex'' \<and> fn = ''sex'' \<or> p = ''birth_place'' \<and> fn = ''BIRT_PLAC_lc'' \<or>
         p = ''marriage_place'' \<and> fn = ''MARR_PLAC_lc'' \<or> p = ''tree_number'' \<and> fn = ''tree_num'' \<or>
         p = ''death_place'' \<and> fn = ''DEAT_PLAC_lc'' \<or> p = ''place'' \<and> fn = ''filler_lc''"
proof -
  have "(p, fn) \<in> set ARGS_TO_INDEX"
    using assms by (rule map_of_SomeD)
  then show ?thesis
    unfolding ARGS_TO_INDEX_def by simp
qed

lemma resolve_name_place_single:
  "resolve_name_place sx re p val = Inr qf \<Longrightarrow> \<exists>f c. qf = [(f, c)]"
  using resolve_name_place_two_fields [of sx re p val qf] by blast

lemma resolve_name_place_owner:
  assumes "resolve_name_place sx re p val = Inr qf" and "(f, c) \<in> set qf"
  shows "param_of_key (if p = ''place'' then ''$or'' else f) = p"
proof -
  obtain fn stem pieces c' where fn: "map_of ARGS_TO_INDEX p = Some fn"
    and st: "str_split ''_lc'' fn = stem # pieces"
    and qf: "qf = [(fn, c')] \<or> qf = [(stem @ ''S'', c')]"
    using resolve_name_place_two_fields [OF assms(1)] by blast
  have f: "f = fn \<or> f = stem @ ''S''"
    using qf assms(2) by auto
  from args_cases [OF fn] show ?thesis
  proof (elim disjE conjE)
    assume 1: "p = ''first_name''" "fn = ''name_lc.0''"
    from 1 have "qf = [(''name_lc.0'', QStr (takeWhile (\<lambda>c. c \<noteq> CHR '';'') val))]"
      using assms(1) by (simp add: resolve_name_place_first_name)
    then have "f = ''name_lc.0''" using assms(2) by simp
    then show ?thesis using 1 by (simp add: param_of_key_values)
  next
    assume 2: "p = ''last_name''" "fn = ''name_lc.1''"
    from 2 have "stem = ''name''"
      using st by (simp only: split_lc_fields list.inject)
    then have "f = ''name_lc.1'' \<or> f = ''nameS''"
      using f 2 by simp
    then show ?thesis using 2 param_of_key_values by auto
  next
    assume 3: "p = ''sex''" "fn = ''sex''"
    from 3 have "stem = ''sex''"
      using st by (simp only: split_lc_fields list.inject)
    then have "f = ''sex'' \<or> f = ''sexS''"
      using f 3 by simp
    then show ?thesis using 3 param_of_key_values by auto
  next
    assume 4: "p = ''birth_place''" "fn = ''BIRT_PLAC_lc''"
    from 4 have "stem = ''BIRT_PLAC''"
      using st by (simp only: split_lc_fields list.inject)
    then have "f = ''BIRT_PLAC_lc'' \<or> f = ''BIRT_PLACS''"
      using f 4 by simp
    then show ?thesis using 4 param_of_key_values by auto
  next
    assume 5: "p = ''marriage_place''" "fn = ''MARR_PLAC_lc''"
    from 5 have "stem = ''MARR_PLAC''"
      using st by (simp only: split_lc_fields list.inject)
    then have "f = ''MARR_PLAC_lc'' \<or> f = ''MARR_PLACS''"
      using f 5 by simp
    then show ?thesis using 5 param_of_key_values by auto
  next
    assume 6: "p = ''tree_number''" "fn = ''tree_num''"
    from 6 have "stem = ''tree_num''"
      using st by (simp only: split_lc_fields list.inject)
    then have "f = ''tree_num'' \<or> f = ''tree_numS''"
      using f 6 by simp
    then show ?thesis using 6 param_of_key_values by auto
  next
    assume 7: "p = ''death_place''" "fn = ''DEAT_PLAC_lc''"
    from 7 have "stem = ''DEAT_PLAC''"
      using st by (simp only: split_lc_fields list.inject)
    then have "f = ''DEAT_PLAC_lc'' \<or> f = ''DEAT_PLACS''"
      using f 7 by simp
    then show ?thesis using 7 param_of_key_values by auto
  next
    assume 8: "p = ''place''" "fn = ''filler_lc''"
    from 8 show ?thesis by (simp add: param_of_key_values)
  qed
qed

section \<open>Assembling the filter\<close>

lemma add_year_other:
  "k \<notin> {''birth_year'', ''death_year'', ''marriage_years''} \<Longrightarrow>
     map_of (add_year iy q) k = map_of q k"
  by (cases iy) (auto simp: add_year_def update_conv')

lemma fold_add_year_other:
  "k \<notin> {''birth_year'', ''death_year'', ''marriage_years''} \<Longrightarrow>
     map_of (fold add_year yrs q) k = map_of q k"
  by (induction yrs arbitrary: q) (simp_all add: add_year_other)

lemma add_field_lookup:
  "map_of (add_field p (f, c) q) k =
     (if p = ''place'' then
        (if k = ''$or''
         then Some (QOr [[(''BIRT_PLAC'' @ (if str_endswith f ''S'' then ''S'' else ''_lc''), c)],
                         [(''MARR_PLAC'' @ (if str_endswith f ''S'' then ''S'' else ''_lc''), c)],
                         [(''DEAT_PLAC'' @ (if str_endswith f ''S'' then ''S'' else ''_lc''), c)]])
         else map_of q k)
      else (if k = f then Some c else map_of q k))"
  by (simp add: add_field_def update_conv' Let_def)

lemma fold_add_field_other:
  "\<forall>(f, c) \<in> set item. (if p = ''place'' then ''$or'' else f) \<noteq> k \<Longrightarrow>
     map_of (fold (add_field p) item q) k = map_of q k"
proof (induction item arbitrary: q)
  case Nil
  then show ?case by simp
next
  case (Cons fc item)
  obtain f c where fc: "fc = (f, c)" by (cases fc)
  have "map_of (add_field p (f, c) q) k = map_of q k"
    using Cons.prems fc by (auto simp: add_field_lookup)
  then show ?case
    using Cons fc by simp
qed

lemma names_loop_other:
  "\<forall>(p, item) \<in> set r. \<forall>(f, c) \<in> set item. (if p = ''place'' then ''$or'' else f) \<noteq> k \<Longrightarrow>
     map_of (fold add_name_place r q) k = map_of q k"
proof (induction r arbitrary: q)
  case Nil
  then show ?case by simp
next
  case (Cons pi r)
  obtain p item where pi: "pi = (p, item)" by (cases pi)
  have "map_of (add_name_place pi q) k = map_of q k"
    using Cons.prems pi by (simp add: add_name_place_def fold_add_field_other)
  moreover have "map_of (fold add_name_place r (add_name_place pi q)) k
                   = map_of (add_name_place pi q) k"
    using Cons.prems by (intro Cons.IH) simp
  ultimately show ?case by simp
qed

lemma names_loop_written:
  assumes "(p, [(f, c)]) \<in> set r"
    and "k = (if p = ''place'' then ''$or'' else f)"
    and "\<forall>(p', item') \<in> set r. (p', item') \<noteq> (p, [(f, c)]) \<longrightarrow>
           (\<forall>(f', c') \<in> set item'. (if p' = ''place'' then ''$or'' else f') \<noteq> k)"
  shows "map_of (fold add_name_place r q) k = map_of (add_field p (f, c) []) k"
  using assms
proof (induction r arbitrary: q)
  case Nil
  then show ?case by simp
next
  case (Cons pi r)
  show ?case
  proof (cases "(p, [(f, c)]) \<in> set r")
    case True
    moreover have "\<forall>(p', item') \<in> set r. (p', item') \<noteq> (p, [(f, c)]) \<longrightarrow>
           (\<forall>(f', c') \<in> set item'. (if p' = ''place'' then ''$or'' else f') \<noteq> k)"
      using Cons.prems(3) by simp
    ultimately show ?thesis
      using Cons.IH [of "add_name_place pi q"] Cons.prems(2) by simp
  next
    case False
    then have pi: "pi = (p, [(f, c)])"
      using Cons.prems(1) by simp
    have "\<forall>(p', item') \<in> set r. \<forall>(f', c') \<in> set item'.
            (if p' = ''place'' then ''$or'' else f') \<noteq> k"
      using Cons.prems(3) False by auto
    then have "map_of (fold add_name_place r (add_name_place pi q)) k
                 = map_of (add_name_place pi q) k"
      by (rule names_loop_other)
    moreover have "add_name_place pi q = add_field p (f, c) q"
      using pi by (simp add: add_name_place_def)
    moreover have "map_of (add_field p (f, c) q) k = map_of (add_field p (f, c) []) k"
      using Cons.prems(2) by (simp add: add_field_lookup)
    ultimately show ?thesis
      by simp
  qed
qed

lemma add_tree_number_other:
  "add_tree_number d iid q = Inr q' \<Longrightarrow> k \<notin> {''tree_num'', ''id''} \<Longrightarrow>
     map_of q' k = map_of q k"
  by (auto simp: add_tree_number_def update_conv' Let_def split: option.splits if_splits)

lemma build_query_before_tree_number:
  assumes "build_query sx re d = Inr q" and "k \<notin> {''tree_num'', ''id'', ''deceased''}"
  shows "\<exists>nps q2.
           resolve_names_places sx re (names_and_places (fold classify d init_buckets)) = Inr nps \<and>
           map_of q k = map_of (fold add_name_place nps q2) k \<and>
           (\<forall>k'. k' \<notin> {''archived'', ''birth_year'', ''death_year'', ''marriage_years'', ''sex''}
                 \<longrightarrow> map_of q2 k' = None)"
proof -
  define st where "st = fold classify d init_buckets"
  obtain nps where n: "resolve_names_places sx re (names_and_places st) = Inr nps"
    using assms(1) by (auto simp: build_query_def st_def Let_def split: sum.splits)
  obtain yrs where y: "resolve_years (years st) = Inr yrs"
    using assms(1) n by (auto simp: build_query_def st_def Let_def split: sum.splits)
  define q2 where "q2 = (case sex st of
                           None \<Rightarrow> fold add_year yrs [(''archived'', QExists False)]
                         | Some s \<Rightarrow> if s \<noteq> [] then AList.update ''sex'' (QStr s)
                                        (fold add_year yrs [(''archived'', QExists False)])
                                     else fold add_year yrs [(''archived'', QExists False)])"
  obtain q4 where t: "add_tree_number d (individual_id st) (fold add_name_place nps q2) = Inr q4"
    and q: "q = (if only_deceased st then AList.update ''deceased'' (QBool True) q4 else q4)"
    using assms(1) n y
    by (auto simp: build_query_def st_def [symmetric] q2_def Let_def split: sum.splits)
  have "map_of q k = map_of q4 k"
    using q assms(2) by (simp add: update_conv')
  also have "\<dots> = map_of (fold add_name_place nps q2) k"
    using t assms(2) by (intro add_tree_number_other) auto
  finally have a: "map_of q k = map_of (fold add_name_place nps q2) k" .
  have "map_of q2 k' = None"
    if "k' \<notin> {''archived'', ''birth_year'', ''death_year'', ''marriage_years'', ''sex''}" for k'
    using that by (auto simp: q2_def update_conv' fold_add_year_other split: option.splits)
  then show ?thesis
    using n a st_def by blast
qed

section \<open>What \<open>build_query\<close> stores for a name or place parameter\<close>

lemma init_names_empty: "names_and_places init_buckets = []"
  by (simp add: init_buckets_def)

lemma name_place_key_values:
  "\<not> is_name_place_key []"
  "\<not> is_name_place_key ''tree_number''"
  "\<not> is_name_place_key ''sex''"
  "is_name_place_key ''first_name''"
  "is_name_place_key ''place''"
  "is_name_place_key ''birth_place''"
  "is_name_place_key ''marriage_place''"
  "is_name_place_key ''death_place''"
  by (simp_all add: is_name_place_key_def str_endswith_def suffix_def)

lemma nps_entry:
  assumes "distinct (map fst d)" and "(p, v) \<in> set d" and "is_name_place_key p"
    and "resolve_names_places sx re (names_and_places (fold classify d init_buckets)) = Inr nps"
  shows "\<exists>f c. resolve_name_place sx re p (str_lower v) = Inr [(f, c)] \<and> (p, [(f, c)]) \<in> set nps"
proof -
  have "map_of (names_and_places (fold classify d init_buckets)) p = Some (str_lower v)"
    using assms(1-3) by (rule fold_classify_names_present)
  then obtain qf where qf: "resolve_name_place sx re p (str_lower v) = Inr qf" "map_of nps p = Some qf"
    using resolve_names_places_lookup [OF assms(4)] by blast
  obtain f c where "qf = [(f, c)]"
    using resolve_name_place_single [OF qf(1)] by blast
  then show ?thesis
    using qf map_of_SomeD [OF qf(2)] by blast
qed

lemma nps_distinct:
  assumes "resolve_names_places sx re (names_and_places (fold classify d init_buckets)) = Inr nps"
  shows "distinct (map fst nps)"
proof -
  have "distinct (map fst (names_and_places (fold classify d init_buckets)))"
    by (rule fold_classify_names_distinct) (simp add: init_names_empty)
  then show ?thesis
    using resolve_names_places_keys [OF assms] by simp
qed

lemma nps_keys:
  assumes "resolve_names_places sx re (names_and_places (fold classify d init_buckets)) = Inr nps"
    and "(p, item) \<in> set nps"
  shows "p \<in> fst ` set d \<and> is_name_place_key p"
proof -
  have "p \<in> set (map fst nps)"
    using assms(2) by force
  then have "p \<in> fst ` set (names_and_places (fold classify d init_buckets))"
    using resolve_names_places_keys [OF assms(1)] by simp
  then show ?thesis
    by (simp add: fold_classify_names_keys init_names_empty)
qed

lemma nps_owner:
  assumes "resolve_names_places sx re nps0 = Inr nps"
    and "(p, item) \<in> set nps" and "(f, c) \<in> set item"
  shows "param_of_key (if p = ''place'' then ''$or'' else f) = p"
proof -
  obtain v where "resolve_name_place sx re p v = Inr item"
    using resolve_names_places_entries [OF assms(1,2)] by blast
  then show ?thesis
    using assms(3) by (rule resolve_name_place_owner)
qed

lemma owner_not_late_key:
  "is_name_place_key (param_of_key k) \<Longrightarrow> k \<notin> {''tree_num'', ''id'', ''deceased''}"
  using name_place_key_values(1,2) by (auto simp: param_of_key_def)

lemma build_query_clause:
  assumes "distinct (map fst d)" and "build_query sx re d = Inr q" and "(p, v) \<in> set d"
    and "is_name_place_key p"
  shows "\<exists>f c. resolve_name_place sx re p (str_lower v) = Inr [(f, c)] \<and>
           map_of q (if p = ''place'' then ''$or'' else f)
             = map_of (add_field p (f, c) []) (if p = ''place'' then ''$or'' else f)"
proof -
  obtain nps where nps:
    "resolve_names_places sx re (names_and_places (fold classify d init_buckets)) = Inr nps"
    using assms(2) by (auto simp: build_query_def Let_def split: sum.splits)
  obtain f c where fc: "resolve_name_place sx re p (str_lower v) = Inr [(f, c)]"
    and mem: "(p, [(f, c)]) \<in> set nps"
    using nps_entry [OF assms(1,3,4) nps] by blast
  define k where "k = (if p = ''place'' then ''$or'' else f)"
  have own: "param_of_key k = p"
    unfolding k_def using fc by (rule resolve_name_place_owner) simp
  then have "k \<notin> {''tree_num'', ''id'', ''deceased''}"
    using assms(4) owner_not_late_key by blast
  then obtain q2 where q2: "map_of q k = map_of (fold add_name_place nps q2) k"
    using build_query_before_tree_number [OF assms(2), of k] nps by auto
  have other: "(if p' = ''place'' then ''$or'' else f') \<noteq> k"
    if a: "(p', item') \<in> set nps" and n: "(p', item') \<noteq> (p, [(f, c)])"
      and b: "(f', c') \<in> set item'" for p' item' f' c'
  proof
    assume e: "(if p' = ''place'' then ''$or'' else f') = k"
    have "param_of_key (if p' = ''place'' then ''$or'' else f') = p'"
      using nps a b by (rule nps_owner)
    then have pp: "p' = p"
      using own e by simp
    have "map_of nps p = Some item'"
      using a pp nps_distinct [OF nps] by simp
    moreover have "map_of nps p = Some [(f, c)]"
      using mem nps_distinct [OF nps] by simp
    ultimately show False
      using n pp by simp
  qed
  have uniq: "\<forall>(p', item') \<in> set nps. (p', item') \<noteq> (p, [(f, c)]) \<longrightarrow>
           (\<forall>(f', c') \<in> set item'. (if p' = ''place'' then ''$or'' else f') \<noteq> k)"
  proof (intro ballI)
    fix x
    assume x: "x \<in> set nps"
    obtain p' item' where xe: "x = (p', item')" by (cases x)
    have "\<forall>y \<in> set item'. (case y of (f', c') \<Rightarrow> (if p' = ''place'' then ''$or'' else f') \<noteq> k)"
      if "(p', item') \<noteq> (p, [(f, c)])"
    proof (intro ballI)
      fix y
      assume y: "y \<in> set item'"
      obtain f' c' where ye: "y = (f', c')" by (cases y)
      show "case y of (f', c') \<Rightarrow> (if p' = ''place'' then ''$or'' else f') \<noteq> k"
        using other [of p' item' f' c'] x xe y ye that by simp
    qed
    then show "case x of (p', item') \<Rightarrow> (p', item') \<noteq> (p, [(f, c)]) \<longrightarrow>
           (\<forall>(f', c') \<in> set item'. (if p' = ''place'' then ''$or'' else f') \<noteq> k)"
      using xe by simp
  qed
  have "map_of (fold add_name_place nps q2) k = map_of (add_field p (f, c) []) k"
    using mem k_def uniq by (rule names_loop_written)
  then show ?thesis
    using fc q2 k_def by auto
qed

lemma build_query_no_clause:
  assumes "build_query sx re d = Inr q"
    and "k \<notin> {''tree_num'', ''id'', ''deceased'', ''archived'', ''birth_year'', ''death_year'',
               ''marriage_years'', ''sex''}"
    and "param_of_key k \<notin> fst ` set d"
  shows "map_of q k = None"
proof -
  obtain nps q2 where
    nps: "resolve_names_places sx re (names_and_places (fold classify d init_buckets)) = Inr nps"
    and q2: "map_of q k = map_of (fold add_name_place nps q2) k"
    and none: "\<forall>k'. k' \<notin> {''archived'', ''birth_year'', ''death_year'', ''marriage_years'', ''sex''}
                 \<longrightarrow> map_of q2 k' = None"
    using build_query_before_tree_number [OF assms(1), of k] assms(2) by auto
  have other: "(if p = ''place'' then ''$or'' else f) \<noteq> k"
    if a: "(p, item) \<in> set nps" and b: "(f, c) \<in> set item" for p item f c
  proof
    assume e: "(if p = ''place'' then ''$or'' else f) = k"
    have "param_of_key (if p = ''place'' then ''$or'' else f) = p"
      using nps a b by (rule nps_owner)
    moreover have "p \<in> fst ` set d"
      using nps_keys [OF nps a] by simp
    ultimately show False
      using assms(3) e by simp
  qed
  have "\<forall>(p, item) \<in> set nps. \<forall>(f, c) \<in> set item. (if p = ''place'' then ''$or'' else f) \<noteq> k"
  proof (intro ballI)
    fix x
    assume x: "x \<in> set nps"
    obtain p item where xe: "x = (p, item)" by (cases x)
    have "\<forall>y \<in> set item. (case y of (f, c) \<Rightarrow> (if p = ''place'' then ''$or'' else f) \<noteq> k)"
    proof (intro ballI)
      fix y
      assume y: "y \<in> set item"
      obtain f c where ye: "y = (f, c)" by (cases y)
      show "case y of (f, c) \<Rightarrow> (if p = ''place'' then ''$or'' else f) \<noteq> k"
        using other [of p item f c] x xe y ye by simp
    qed
    then show "case x of (p, item) \<Rightarrow>
        \<forall>(f, c) \<in> set item. (if p = ''place'' then ''$or'' else f) \<noteq> k"
      using xe by simp
  qed
  then have "map_of (fold add_name_place nps q2) k = map_of q2 k"
    by (rule names_loop_other)
  then show ?thesis
    using q2 none assms(2) by simp
qed

section \<open>Properties of the compiled filter\<close>

text \<open>
  C5.  When the search parameters contain a key that ends in \<open>place\<close> or contains \<open>_year\<close>,
  the filter that \<open>build_query\<close> returns has the clause \<open>deceased == True\<close>.
\<close>

theorem place_or_year_forces_deceased:
  assumes "build_query sx re d = Inr q" and "(k, v) \<in> set d"
    and "str_endswith k ''place'' \<or> str_contains ''_year'' k"
  shows "map_of q ''deceased'' = Some (QBool True)"
proof -
  have "only_deceased (fold classify d init_buckets)"
    using assms(2,3) by (force simp: fold_classify_only_deceased)
  then obtain q4 where "q = AList.update ''deceased'' (QBool True) q4"
    using assms(1) by (auto simp: build_query_def Let_def split: sum.splits)
  then show ?thesis
    by (simp add: update_conv')
qed

theorem place_or_year_forces_deceased_witness:
  "build_query id (\<lambda>_. True) [(''birth_year'', ''1907:2'')]
     = Inr [(''archived'', QExists False), (''birth_year'', QRange 1905 1909), (''deceased'', QBool True)] \<and>
   (''birth_year'', ''1907:2'') \<in> set [(''birth_year'', ''1907:2'')] \<and>
   (str_endswith ''birth_year'' ''place'' \<or> str_contains ''_year'' ''birth_year'') \<and>
   map_of [(''archived'', QExists False), (''birth_year'', QRange 1905 1909), (''deceased'', QBool True)]
     ''deceased'' = Some (QBool True)"
proof -
  have b: "build_query id (\<lambda>_. True) [(''birth_year'', ''1907:2'')]
     = Inr [(''archived'', QExists False), (''birth_year'', QRange 1905 1909), (''deceased'', QBool True)]"
    by code_simp
  have m: "(''birth_year'', ''1907:2'') \<in> set [(''birth_year'', ''1907:2'')]"
    by simp
  have k: "str_endswith ''birth_year'' ''place'' \<or> str_contains ''_year'' ''birth_year''"
    by code_simp
  show ?thesis
    using place_or_year_forces_deceased [OF b m k] b m k by simp
qed

text \<open>
  C7.  For a \<open>first_name\<close> parameter with value \<open>v\<close>, whatever follows a \<open>;\<close> in \<open>v\<close>, the
  filter has an exact-match clause on the index field \<open>name_lc.0\<close> whose string is the part
  of \<open>v\<close> before the first \<open>;\<close> (lower-cased, as every name and place value is); the
  modifier does not appear in it.
\<close>

theorem first_name_exact:
  assumes "distinct (map fst d)" and "(''first_name'', v) \<in> set d"
    and "build_query sx re d = Inr q"
  shows "map_of q ''name_lc.0'' = Some (QStr (str_lower (takeWhile (\<lambda>c. c \<noteq> CHR '';'') v)))"
proof -
  obtain f c where r: "resolve_name_place sx re ''first_name'' (str_lower v) = Inr [(f, c)]"
    and m: "map_of q (if ''first_name'' = ''place'' then ''$or'' else f)
              = map_of (add_field ''first_name'' (f, c) []) (if ''first_name'' = ''place'' then ''$or'' else f)"
    using build_query_clause [OF assms(1,3,2) name_place_key_values(4)] by blast
  have "f = ''name_lc.0''" and "c = QStr (takeWhile (\<lambda>c. c \<noteq> CHR '';'') (str_lower v))"
    using r by (simp_all add: resolve_name_place_first_name)
  then show ?thesis
    using m by (simp add: add_field_lookup lower_before_semicolon)
qed

theorem first_name_exact_witness:
  "distinct (map fst [(''first_name'', ''Yeh;phonetic'')]) \<and>
   (''first_name'', ''Yeh;phonetic'') \<in> set [(''first_name'', ''Yeh;phonetic'')] \<and>
   build_query id (\<lambda>_. True) [(''first_name'', ''Yeh;phonetic'')]
     = Inr [(''archived'', QExists False), (''name_lc.0'', QStr ''yeh'')] \<and>
   map_of [(''archived'', QExists False), (''name_lc.0'', QStr ''yeh'')] ''name_lc.0''
     = Some (QStr (str_lower (takeWhile (\<lambda>c. c \<noteq> CHR '';'') ''Yeh;phonetic'')))"
proof -
  have d: "distinct (map fst [(''first_name'', ''Yeh;phonetic'')])"
    by simp
  have m: "(''first_name'', ''Yeh;phonetic'') \<in> set [(''first_name'', ''Yeh;phonetic'')]"
    by simp
  have b: "build_query id (\<lambda>_. True) [(''first_name'', ''Yeh;phonetic'')]
     = Inr [(''archived'', QExists False), (''name_lc.0'', QStr ''yeh'')]"
    by code_simp
  show ?thesis
    using first_name_exact [OF d m b] d m b by simp
qed

text \<open>
  C1.  The filter compiled for \<open>tree_number\<close> = 5 with \<open>individual_id\<close>, \<open>last_name\<close> and
  \<open>birth_year\<close>: the clauses for the name and the year, and \<open>deceased\<close>, are all still there
  next to \<open>archived\<close>, \<open>tree_num\<close> and \<open>id\<close>.
\<close>

theorem tree_number_keeps_other_clauses:
  "build_query id (\<lambda>_. True)
     [(''tree_number'', ''5''), (''individual_id'', ''I1''), (''last_name'', ''Cohen''),
      (''birth_year'', ''1907'')]
   = Inr [(''archived'', QExists False), (''birth_year'', QRange 1907 1907),
          (''name_lc.1'', QStr ''cohen''), (''tree_num'', QInt 5), (''id'', QStr ''I1''),
          (''deceased'', QBool True)]"
  by code_simp

section \<open>Keys that \<open>build_query\<close> does not know\<close>

lemma build_query_ignores:
  assumes "\<not> is_name_place_key k" and "\<not> str_contains ''_year'' k"
    and "k \<notin> set [''sex'', ''individual_id'', ''tree_number'']"
  shows "build_query sx re (d1 @ (k, v) # d2) = build_query sx re (d1 @ d2)"
proof -
  have "classify (k, v) st = st" for st
    using assms by (intro classify_ignored) auto
  then have f: "fold classify (d1 @ (k, v) # d2) init_buckets = fold classify (d1 @ d2) init_buckets"
    by simp
  have "map_of (d1 @ (k, v) # d2) ''tree_number'' = map_of (d1 @ d2) ''tree_number''"
    using assms(3) by (auto simp: map_add_def split: option.splits)
  then have t: "add_tree_number (d1 @ (k, v) # d2) iid q = add_tree_number (d1 @ d2) iid q" for iid q
    by (simp only: add_tree_number_def)
  show ?thesis
    unfolding build_query_def f t ..
qed

lemma build_query_unknown_single:
  assumes "is_name_place_key k" and "map_of ARGS_TO_INDEX k = None"
  shows "build_query sx re [(k, v)] = Inl (KeyError k)"
proof -
  have "names_and_places (fold classify [(k, v)] init_buckets) = [(k, str_lower v)]"
    using assms(1) by (simp add: classify_def is_name_place_key_def init_buckets_def Let_def)
  then show ?thesis
    using assms(2) by (simp add: build_query_def Let_def resolve_name_place_unknown)
qed

lemma build_query_unknown_fails:
  assumes "is_name_place_key k" and "map_of ARGS_TO_INDEX k = None" and "(k, v) \<in> set d"
  shows "\<exists>e. build_query sx re d = Inl e"
proof -
  have "k \<in> fst ` set (names_and_places (fold classify d init_buckets))"
    using assms(1,3) by (force simp: fold_classify_names_keys)
  then obtain val where "(k, val) \<in> set (names_and_places (fold classify d init_buckets))"
    by auto
  moreover have "resolve_name_place sx re k val = Inl (KeyError k)" for val
    using assms(2) by (rule resolve_name_place_unknown)
  ultimately obtain e where
    "resolve_names_places sx re (names_and_places (fold classify d init_buckets)) = Inl e"
    using resolve_names_places_fails by blast
  then show ?thesis
    by (simp add: build_query_def Let_def)
qed

text \<open>
  C2 (amended).  A key that neither ends in \<open>name\<close> or \<open>place\<close> nor contains \<open>_year\<close>, and is
  not \<open>sex\<close>, \<open>individual_id\<close> or \<open>tree_number\<close>, is ignored: wherever it stands among the
  parameters, \<open>build_query\<close> gives the result it gives without it.  A key that ends in
  \<open>name\<close> or \<open>place\<close> and has no entry in \<open>ARGS_TO_INDEX\<close> makes the lookup fail: alone it
  raises \<open>KeyError\<close>, and with other parameters no filter is returned either.
\<close>

theorem unknown_key_ignored_or_key_error:
  "(\<not> is_name_place_key k \<and> \<not> str_contains ''_year'' k \<and>
      k \<notin> set [''sex'', ''individual_id'', ''tree_number'']
      \<longrightarrow> build_query sx re (d1 @ (k, v) # d2) = build_query sx re (d1 @ d2)) \<and>
   (is_name_place_key k \<and> map_of ARGS_TO_INDEX k = None
      \<longrightarrow> build_query sx re [(k, v)] = Inl (KeyError k) \<and>
          ((k, v) \<in> set d \<longrightarrow> (\<exists>e. build_query sx re d = Inl e)))"
  using build_query_ignores [of k sx re d1 v d2] build_query_unknown_single [of k sx re v]
    build_query_unknown_fails [of k v d sx re]
  by blast

theorem unknown_key_ignored_or_key_error_witness:
  "(\<not> is_name_place_key ''start'' \<and> \<not> str_contains ''_year'' ''start'' \<and>
      ''start'' \<notin> set [''sex'', ''individual_id'', ''tree_number'']) \<and>
   build_query id (\<lambda>_. True) ([(''last_name'', ''cohen'')] @ (''start'', ''30'') # [(''sex'', ''f'')])
     = build_query id (\<lambda>_. True) ([(''last_name'', ''cohen'')] @ [(''sex'', ''f'')]) \<and>
   build_query id (\<lambda>_. True) ([(''last_name'', ''cohen'')] @ [(''sex'', ''f'')])
     = Inr [(''archived'', QExists False), (''sex'', QStr ''F''), (''name_lc.1'', QStr ''cohen'')] \<and>
   (is_name_place_key ''workplace'' \<and> map_of ARGS_TO_INDEX ''workplace'' = None) \<and>
   build_query id (\<lambda>_. True) [(''workplace'', ''x'')] = Inl (KeyError ''workplace'')"
proof -
  have a: "\<not> is_name_place_key ''start'' \<and> \<not> str_contains ''_year'' ''start'' \<and>
      ''start'' \<notin> set [''sex'', ''individual_id'', ''tree_number'']"
    by code_simp
  have b: "is_name_place_key ''workplace'' \<and> map_of ARGS_TO_INDEX ''workplace'' = None"
    by code_simp
  have c: "build_query id (\<lambda>_. True) ([(''last_name'', ''cohen'')] @ [(''sex'', ''f'')])
     = Inr [(''archived'', QExists False), (''sex'', QStr ''F''), (''name_lc.1'', QStr ''cohen'')]"
    by code_simp
  have "build_query id (\<lambda>_. True) ([(''last_name'', ''cohen'')] @ (''start'', ''30'') # [(''sex'', ''f'')])
     = build_query id (\<lambda>_. True) ([(''last_name'', ''cohen'')] @ [(''sex'', ''f'')])"
    using unknown_key_ignored_or_key_error [of "''start''" id "\<lambda>_. True" "[(''last_name'', ''cohen'')]"
        "''30''" "[(''sex'', ''f'')]" "[]"] a by blast
  moreover have "build_query id (\<lambda>_. True) [(''workplace'', ''x'')] = Inl (KeyError ''workplace'')"
    using unknown_key_ignored_or_key_error [of "''workplace''" id "\<lambda>_. True" "[]" "''x''" "[]" "[]"] b
    by blast
  ultimately show ?thesis
    using a b c by blast
qed

text \<open>The key \<open>workplace\<close> ends in \<open>place\<close>, has no entry in \<open>ARGS_TO_INDEX\<close>, and
  \<open>build_query\<close> raises \<open>KeyError\<close> on it.\<close>

theorem unknown_place_key_counterexample:
  "str_endswith ''workplace'' ''place'' \<and> map_of ARGS_TO_INDEX ''workplace'' = None \<and>
   build_query id (\<lambda>_. True) [(''workplace'', ''x'')] = Inl (KeyError ''workplace'')"
  by code_simp

section \<open>A year that is not an integer\<close>

lemma build_query_bad_year_single:
  assumes "is_year_key k" and "resolve_year v = Inl e"
  shows "build_query sx re [(k, v)] = Inl e"
proof -
  have "names_and_places (fold classify [(k, v)] init_buckets) = []"
    and "years (fold classify [(k, v)] init_buckets) = [(k, v)]"
    using assms(1)
    by (simp_all add: classify_def is_year_key_def is_name_place_key_def init_buckets_def Let_def)
  then show ?thesis
    using assms(2) by (simp add: build_query_def Let_def)
qed

lemma build_query_bad_year_fails:
  assumes "distinct (map fst d)" and "(k, v) \<in> set d" and "is_year_key k"
    and "resolve_year v = Inl e"
  shows "\<exists>e'. build_query sx re d = Inl e'"
proof -
  have "map_of (years (fold classify d init_buckets)) k = Some v"
    using assms(1-3) by (rule fold_classify_years_present)
  then have "(k, v) \<in> set (years (fold classify d init_buckets))"
    by (rule map_of_SomeD)
  then obtain e' where "resolve_years (years (fold classify d init_buckets)) = Inl e'"
    using assms(4) resolve_years_fails by blast
  then show ?thesis
    by (simp add: build_query_def Let_def split: sum.splits)
qed

text \<open>
  C9 (amended).  For a year parameter whose value has no \<open>:\<close> and is not an integer,
  compilation fails with \<open>abort(400, 'Year must be an integer')\<close>: that is the result for the
  parameter alone, and with other parameters beside it no filter is produced either.  The
  message is not the one of the \<open>"YYYY:F"\<close> case.
\<close>

theorem bare_year_not_integer:
  assumes "is_year_key k" and "CHR '':'' \<notin> set v" and "py_int v = None"
  shows "resolve_year v = Inl (Abort 400 ''Year must be an integer'') \<and>
         build_query sx re [(k, v)] = Inl (Abort 400 ''Year must be an integer'') \<and>
         (distinct (map fst d) \<and> (k, v) \<in> set d \<longrightarrow> (\<exists>e. build_query sx re d = Inl e))"
proof -
  have r: "resolve_year v = Inl (Abort 400 ''Year must be an integer'')"
    using assms(2,3) by (rule resolve_year_not_int)
  show ?thesis
    using r build_query_bad_year_single [OF assms(1) r]
      build_query_bad_year_fails [of d k v _ sx re, OF _ _ assms(1) r]
    by blast
qed

theorem bare_year_not_integer_witness:
  "is_year_key ''birth_year'' \<and> CHR '':'' \<notin> set ''19o7'' \<and> py_int ''19o7'' = None \<and>
   resolve_year ''19o7'' = Inl (Abort 400 ''Year must be an integer'') \<and>
   build_query id (\<lambda>_. True) [(''birth_year'', ''19o7'')] = Inl (Abort 400 ''Year must be an integer'') \<and>
   (\<exists>e. build_query id (\<lambda>_. True) [(''last_name'', ''cohen''), (''birth_year'', ''19o7'')] = Inl e)"
proof -
  have k: "is_year_key ''birth_year''" by code_simp
  have c: "CHR '':'' \<notin> set ''19o7''" by simp
  have p: "py_int ''19o7'' = None" by code_simp
  have d: "distinct (map fst [(''last_name'', ''cohen''), (''birth_year'', ''19o7'')]) \<and>
           (''birth_year'', ''19o7'') \<in> set [(''last_name'', ''cohen''), (''birth_year'', ''19o7'')]"
    by simp
  show ?thesis
    using bare_year_not_integer [OF k c p, of id "\<lambda>_. True"
        "[(''last_name'', ''cohen''), (''birth_year'', ''19o7'')]"] k c p d
    by blast
qed

text \<open>The two messages, for \<open>birth_year\<close> = \<open>"19o7"\<close> and \<open>"19o7:2"\<close>, differ.\<close>

theorem bare_year_message_counterexample:
  "build_query id (\<lambda>_. True) [(''birth_year'', ''19o7'')] = Inl (Abort 400 ''Year must be an integer'') \<and>
   build_query id (\<lambda>_. True) [(''birth_year'', ''19o7:2'')]
     = Inl (Abort 400 ''Year and fudge factor must be integers'') \<and>
   ''Year must be an integer'' \<noteq> ''Year and fudge factor must be integers''"
  by code_simp

section \<open>Place parameters\<close>

lemma index_suffix_cases: "index_suffix v = ''S'' \<or> index_suffix v = ''_lc''"
  by (simp add: index_suffix_def)

lemma place_fields:
  "map_of ARGS_TO_INDEX ''birth_place'' = Some ''BIRT_PLAC_lc''"
  "map_of ARGS_TO_INDEX ''marriage_place'' = Some ''MARR_PLAC_lc''"
  "map_of ARGS_TO_INDEX ''death_place'' = Some ''DEAT_PLAC_lc''"
  "map_of ARGS_TO_INDEX ''place'' = Some ''filler_lc''"
  by (simp_all add: ARGS_TO_INDEX_def)

lemma specific_place_resolved:
  assumes "resolve_name_place sx re p (str_lower v) = Inr [(f, c)]"
    and "(p, fld) \<in> set [(''birth_place'', ''BIRT_PLAC''), (''marriage_place'', ''MARR_PLAC''),
                          (''death_place'', ''DEAT_PLAC'')]"
  shows "f = fld @ index_suffix v \<and> c = match_clause sx v"
proof -
  consider "p = ''birth_place''" "fld = ''BIRT_PLAC''"
    | "p = ''marriage_place''" "fld = ''MARR_PLAC''"
    | "p = ''death_place''" "fld = ''DEAT_PLAC''"
    using assms(2) by auto
  then show ?thesis
  proof cases
    case 1
    have "[(f, c)] = [(if index_suffix v = ''S'' then ''BIRT_PLAC'' @ ''S'' else ''BIRT_PLAC_lc'',
                       match_clause sx v)]"
      using assms(1) unfolding 1
      by (rule resolve_name_place_Inr) (simp_all add: place_fields split_lc_fields)
    then show ?thesis
      using 1 index_suffix_cases [of v] by auto
  next
    case 2
    have "[(f, c)] = [(if index_suffix v = ''S'' then ''MARR_PLAC'' @ ''S'' else ''MARR_PLAC_lc'',
                       match_clause sx v)]"
      using assms(1) unfolding 2
      by (rule resolve_name_place_Inr) (simp_all add: place_fields split_lc_fields)
    then show ?thesis
      using 2 index_suffix_cases [of v] by auto
  next
    case 3
    have "[(f, c)] = [(if index_suffix v = ''S'' then ''DEAT_PLAC'' @ ''S'' else ''DEAT_PLAC_lc'',
                       match_clause sx v)]"
      using assms(1) unfolding 3
      by (rule resolve_name_place_Inr) (simp_all add: place_fields split_lc_fields)
    then show ?thesis
      using 3 index_suffix_cases [of v] by auto
  qed
qed

lemma generic_place_resolved:
  assumes "resolve_name_place sx re ''place'' (str_lower v) = Inr [(f, c)]"
  shows "(if str_endswith f ''S'' then ''S'' else ''_lc'') = index_suffix v \<and> c = match_clause sx v"
proof -
  have "[(f, c)] = [(if index_suffix v = ''S'' then ''filler'' @ ''S'' else ''filler_lc'',
                     match_clause sx v)]"
    using assms by (rule resolve_name_place_Inr) (simp_all add: place_fields split_lc_fields)
  then have f: "f = (if index_suffix v = ''S'' then ''fillerS'' else ''filler_lc'')"
    and c: "c = match_clause sx v"
    by simp_all
  have "str_endswith ''fillerS'' ''S''" and "\<not> str_endswith ''filler_lc'' ''S''"
    by code_simp+
  then show ?thesis
    using f c index_suffix_cases [of v] by auto
qed

lemma place_disjunction_present:
  assumes "distinct (map fst d)" and "build_query sx re d = Inr q" and "(''place'', v) \<in> set d"
  shows "map_of q ''$or'' =
           Some (QOr [[(''BIRT_PLAC'' @ index_suffix v, match_clause sx v)],
                      [(''MARR_PLAC'' @ index_suffix v, match_clause sx v)],
                      [(''DEAT_PLAC'' @ index_suffix v, match_clause sx v)]])"
proof -
  obtain f c where r: "resolve_name_place sx re ''place'' (str_lower v) = Inr [(f, c)]"
    and m: "map_of q (if ''place'' = ''place'' then ''$or'' else f)
              = map_of (add_field ''place'' (f, c) []) (if ''place'' = ''place'' then ''$or'' else f)"
    using build_query_clause [OF assms(1,2,3) name_place_key_values(5)] by blast
  have "(if str_endswith f ''S'' then ''S'' else ''_lc'') = index_suffix v" and "c = match_clause sx v"
    using generic_place_resolved [OF r] by simp_all
  then show ?thesis
    using m by (simp add: add_field_lookup)
qed

lemma specific_place_present:
  assumes "distinct (map fst d)" and "build_query sx re d = Inr q" and "(p, v) \<in> set d"
    and "(p, fld) \<in> set [(''birth_place'', ''BIRT_PLAC''), (''marriage_place'', ''MARR_PLAC''),
                          (''death_place'', ''DEAT_PLAC'')]"
  shows "map_of q (fld @ index_suffix v) = Some (match_clause sx v)"
proof -
  have np: "is_name_place_key p" and pl: "p \<noteq> ''place''"
    using assms(4) name_place_key_values by auto
  obtain f c where r: "resolve_name_place sx re p (str_lower v) = Inr [(f, c)]"
    and m: "map_of q (if p = ''place'' then ''$or'' else f)
              = map_of (add_field p (f, c) []) (if p = ''place'' then ''$or'' else f)"
    using build_query_clause [OF assms(1,2,3) np] by blast
  have "f = fld @ index_suffix v" and "c = match_clause sx v"
    using specific_place_resolved [OF r assms(4)] by simp_all
  then show ?thesis
    using m pl by (simp add: add_field_lookup)
qed

lemma specific_place_absent:
  assumes "build_query sx re d = Inr q" and "p \<notin> fst ` set d"
    and "(p, fld) \<in> set [(''birth_place'', ''BIRT_PLAC''), (''marriage_place'', ''MARR_PLAC''),
                          (''death_place'', ''DEAT_PLAC'')]"
  shows "map_of q (fld @ ''_lc'') = None \<and> map_of q (fld @ ''S'') = None"
proof -
  consider "p = ''birth_place''" "fld = ''BIRT_PLAC''"
    | "p = ''marriage_place''" "fld = ''MARR_PLAC''"
    | "p = ''death_place''" "fld = ''DEAT_PLAC''"
    using assms(3) by auto
  then show ?thesis
  proof cases
    case 1
    have "map_of q ''BIRT_PLAC_lc'' = None"
      using assms(1) by (rule build_query_no_clause) (use assms(2) 1 in \<open>simp_all add: param_of_key_values\<close>)
    moreover have "map_of q ''BIRT_PLACS'' = None"
      using assms(1) by (rule build_query_no_clause) (use assms(2) 1 in \<open>simp_all add: param_of_key_values\<close>)
    ultimately show ?thesis using 1 by simp
  next
    case 2
    have "map_of q ''MARR_PLAC_lc'' = None"
      using assms(1) by (rule build_query_no_clause) (use assms(2) 2 in \<open>simp_all add: param_of_key_values\<close>)
    moreover have "map_of q ''MARR_PLACS'' = None"
      using assms(1) by (rule build_query_no_clause) (use assms(2) 2 in \<open>simp_all add: param_of_key_values\<close>)
    ultimately show ?thesis using 2 by simp
  next
    case 3
    have "map_of q ''DEAT_PLAC_lc'' = None"
      using assms(1) by (rule build_query_no_clause) (use assms(2) 3 in \<open>simp_all add: param_of_key_values\<close>)
    moreover have "map_of q ''DEAT_PLACS'' = None"
      using assms(1) by (rule build_query_no_clause) (use assms(2) 3 in \<open>simp_all add: param_of_key_values\<close>)
    ultimately show ?thesis using 3 by simp
  qed
qed

lemma place_disjunction_absent:
  assumes "build_query sx re d = Inr q" and "''place'' \<notin> fst ` set d"
  shows "map_of q ''$or'' = None"
  using assms(1) by (rule build_query_no_clause) (use assms(2) in \<open>simp_all add: param_of_key_values\<close>)

lemma specific_place_alone:
  assumes "build_query sx re [(p, v)] = Inr q"
    and "(p, fld) \<in> set [(''birth_place'', ''BIRT_PLAC''), (''marriage_place'', ''MARR_PLAC''),
                          (''death_place'', ''DEAT_PLAC'')]"
  shows "q = [(''archived'', QExists False), (fld @ index_suffix v, match_clause sx v),
              (''deceased'', QBool True)]"
proof -
  have np: "str_endswith p ''place''" and pl: "p \<noteq> ''place''" and tn: "p \<noteq> ''tree_number''"
    using assms(2) by (auto simp: str_endswith_def suffix_def)
  have st: "classify (p, v) init_buckets =
        \<lparr>names_and_places = [(p, str_lower v)], years = [], sex = None, individual_id = None,
         only_deceased = True\<rparr>"
    using np by (simp add: classify_def init_buckets_def Let_def)
  obtain qf where r: "resolve_name_place sx re p (str_lower v) = Inr qf"
    using assms(1) by (auto simp: build_query_def st Let_def split: sum.splits)
  obtain f c where qf: "qf = [(f, c)]"
    using resolve_name_place_single [OF r] by blast
  have fc: "f = fld @ index_suffix v" "c = match_clause sx v"
    using specific_place_resolved [OF r [unfolded qf] assms(2)] by simp_all
  have fne: "f \<noteq> ''archived''" "f \<noteq> ''deceased''"
    using fc(1) assms(2) index_suffix_cases [of v] by auto
  have "build_query sx re [(p, v)] =
          Inr [(''archived'', QExists False), (f, c), (''deceased'', QBool True)]"
    using r qf pl tn fne
    by (simp add: build_query_def st Let_def add_name_place_def add_field_def add_tree_number_def)
  then show ?thesis
    using assms(1) fc by simp
qed

text \<open>
  C6.  In the filter that \<open>build_query\<close> returns: a \<open>place\<close> parameter with value \<open>v\<close> puts
  under \<open>$or\<close> the disjunction over exactly \<open>BIRT_PLAC\<close>, \<open>MARR_PLAC\<close> and \<open>DEAT_PLAC\<close>, each
  with the suffix \<open>S\<close> when the match is phonetic and \<open>_lc\<close> otherwise, all three with the
  clause of \<open>v\<close>; without a \<open>place\<close> parameter there is no \<open>$or\<close>.  A \<open>birth_place\<close>,
  \<open>marriage_place\<close> or \<open>death_place\<close> parameter puts its clause on its own field; when the
  parameter is absent neither variant of its field is in the filter; and alone it gives
  the filter with \<open>archived\<close>, its own field and \<open>deceased\<close> only.
\<close>

theorem place_disjunction_and_specific_places:
  assumes "distinct (map fst d)" and "build_query sx re d = Inr q"
  shows "((''place'', v) \<in> set d \<longrightarrow>
            map_of q ''$or'' =
              Some (QOr [[(''BIRT_PLAC'' @ index_suffix v, match_clause sx v)],
                         [(''MARR_PLAC'' @ index_suffix v, match_clause sx v)],
                         [(''DEAT_PLAC'' @ index_suffix v, match_clause sx v)]])) \<and>
         (''place'' \<notin> fst ` set d \<longrightarrow> map_of q ''$or'' = None) \<and>
         (\<forall>(p, fld) \<in> set [(''birth_place'', ''BIRT_PLAC''), (''marriage_place'', ''MARR_PLAC''),
                              (''death_place'', ''DEAT_PLAC'')].
            ((p, v) \<in> set d \<longrightarrow> map_of q (fld @ index_suffix v) = Some (match_clause sx v)) \<and>
            (p \<notin> fst ` set d \<longrightarrow> map_of q (fld @ ''_lc'') = None \<and> map_of q (fld @ ''S'') = None) \<and>
            (d = [(p, v)] \<longrightarrow>
               q = [(''archived'', QExists False), (fld @ index_suffix v, match_clause sx v),
                    (''deceased'', QBool True)]))"
proof (intro conjI impI ballI)
  assume "(''place'', v) \<in> set d"
  then show "map_of q ''$or'' =
              Some (QOr [[(''BIRT_PLAC'' @ index_suffix v, match_clause sx v)],
                         [(''MARR_PLAC'' @ index_suffix v, match_clause sx v)],
                         [(''DEAT_PLAC'' @ index_suffix v, match_clause sx v)]])"
    using assms by (intro place_disjunction_present)
next
  assume "''place'' \<notin> fst ` set d"
  then show "map_of q ''$or'' = None"
    using assms(2) by (intro place_disjunction_absent)
next
  fix x
  assume x: "x \<in> set [(''birth_place'', ''BIRT_PLAC''), (''marriage_place'', ''MARR_PLAC''),
                       (''death_place'', ''DEAT_PLAC'')]"
  obtain p fld where xe: "x = (p, fld)" by (cases x)
  have t: "(p, fld) \<in> set [(''birth_place'', ''BIRT_PLAC''), (''marriage_place'', ''MARR_PLAC''),
                       (''death_place'', ''DEAT_PLAC'')]"
    using x xe by simp
  have "(p, v) \<in> set d \<longrightarrow> map_of q (fld @ index_suffix v) = Some (match_clause sx v)"
    using specific_place_present [OF assms _ t] by blast
  moreover have "p \<notin> fst ` set d \<longrightarrow> map_of q (fld @ ''_lc'') = None \<and> map_of q (fld @ ''S'') = None"
    using specific_place_absent [OF assms(2) _ t] by blast
  moreover have "d = [(p, v)] \<longrightarrow>
               q = [(''archived'', QExists False), (fld @ index_suffix v, match_clause sx v),
                    (''deceased'', QBool True)]"
    using specific_place_alone [OF _ t] assms(2) by blast
  ultimately show "case x of (p, fld) \<Rightarrow>
            ((p, v) \<in> set d \<longrightarrow> map_of q (fld @ index_suffix v) = Some (match_clause sx v)) \<and>
            (p \<notin> fst ` set d \<longrightarrow> map_of q (fld @ ''_lc'') = None \<and> map_of q (fld @ ''S'') = None) \<and>
            (d = [(p, v)] \<longrightarrow>
               q = [(''archived'', QExists False), (fld @ index_suffix v, match_clause sx v),
                    (''deceased'', QBool True)])"
    using xe by simp
qed

theorem place_disjunction_and_specific_places_witness:
  "distinct (map fst [(''place'', ''Lodz;phonetic''), (''birth_place'', ''Warsaw'')]) \<and>
   build_query id (\<lambda>_. True) [(''place'', ''Lodz;phonetic''), (''birth_place'', ''Warsaw'')]
     = Inr [(''archived'', QExists False),
            (''$or'', QOr [[(''BIRT_PLACS'', QStr ''lodz'')], [(''MARR_PLACS'', QStr ''lodz'')],
                           [(''DEAT_PLACS'', QStr ''lodz'')]]),
            (''BIRT_PLAC_lc'', QStr ''warsaw''), (''deceased'', QBool True)] \<and>
   map_of [(''archived'', QExists False),
            (''$or'', QOr [[(''BIRT_PLACS'', QStr ''lodz'')], [(''MARR_PLACS'', QStr ''lodz'')],
                           [(''DEAT_PLACS'', QStr ''lodz'')]]),
            (''BIRT_PLAC_lc'', QStr ''warsaw''), (''deceased'', QBool True)] ''$or''
     = Some (QOr [[(''BIRT_PLAC'' @ index_suffix ''Lodz;phonetic'', match_clause id ''Lodz;phonetic'')],
                  [(''MARR_PLAC'' @ index_suffix ''Lodz;phonetic'', match_clause id ''Lodz;phonetic'')],
                  [(''DEAT_PLAC'' @ index_suffix ''Lodz;phonetic'', match_clause id ''Lodz;phonetic'')]]) \<and>
   map_of [(''archived'', QExists False),
            (''$or'', QOr [[(''BIRT_PLACS'', QStr ''lodz'')], [(''MARR_PLACS'', QStr ''lodz'')],
                           [(''DEAT_PLACS'', QStr ''lodz'')]]),
            (''BIRT_PLAC_lc'', QStr ''warsaw''), (''deceased'', QBool True)]
       (''BIRT_PLAC'' @ index_suffix ''Warsaw'')
     = Some (match_clause id ''Warsaw'')"
proof -
  have d: "distinct (map fst [(''place'', ''Lodz;phonetic''), (''birth_place'', ''Warsaw'')])"
    by simp
  have b: "build_query id (\<lambda>_. True) [(''place'', ''Lodz;phonetic''), (''birth_place'', ''Warsaw'')]
     = Inr [(''archived'', QExists False),
            (''$or'', QOr [[(''BIRT_PLACS'', QStr ''lodz'')], [(''MARR_PLACS'', QStr ''lodz'')],
                           [(''DEAT_PLACS'', QStr ''lodz'')]]),
            (''BIRT_PLAC_lc'', QStr ''warsaw''), (''deceased'', QBool True)]"
    by code_simp
  show ?thesis
    using place_disjunction_and_specific_places [OF d b, of "''Lodz;phonetic''"]
      place_disjunction_and_specific_places [OF d b, of "''Warsaw''"] d b
    by simp
qed

section \<open>The sanitizer on living persons\<close>

lemma strip_loop_filter:
  "fold (\<lambda>key q. if key \<notin> set whitelist then AList.delete key q else q) ks q =
     filter (\<lambda>kv. fst kv \<in> set whitelist \<or> fst kv \<notin> set ks) q"
proof (induction ks arbitrary: q)
  case Nil
  then show ?case by simp
next
  case (Cons k ks)
  show ?case
  proof (cases "k \<in> set whitelist")
    case True
    then have "filter (\<lambda>kv. fst kv \<in> set whitelist \<or> fst kv \<notin> set (k # ks)) q
                 = filter (\<lambda>kv. fst kv \<in> set whitelist \<or> fst kv \<notin> set ks) q"
      by (intro filter_cong) auto
    then show ?thesis
      using True Cons.IH by simp
  next
    case False
    have "filter (\<lambda>kv. fst kv \<in> set whitelist \<or> fst kv \<notin> set ks) (AList.delete k q)
            = filter (\<lambda>kv. fst kv \<in> set whitelist \<or> fst kv \<notin> set (k # ks)) q"
      using False by (induction q) (auto simp: AList.delete_eq)
    then show ?thesis
      using False Cons.IH by simp
  qed
qed

lemma strip_details_filter:
  "strip_details whitelist p = filter (\<lambda>kv. fst kv \<in> set whitelist) p"
proof -
  have "filter (\<lambda>kv. fst kv \<in> set whitelist \<or> fst kv \<notin> set (map fst p)) p
          = filter (\<lambda>kv. fst kv \<in> set whitelist) p"
    by (intro filter_cong) auto
  then show ?thesis
    by (simp add: strip_details_def strip_loop_filter)
qed

lemma rename_key_other:
  "k \<noteq> db_key \<Longrightarrow> k \<noteq> api_key \<Longrightarrow> map_of (rename_key (db_key, api_key) p) k = map_of p k"
  by (simp add: rename_key_def update_conv' delete_conv' split: option.splits)

lemma translate_names_other:
  assumes "k \<in> {''deceased'', ''birth_year''}"
  shows "map_of (translate_names p) k = map_of p k"
proof -
  have "map_of (fold rename_key gedcom_names q) k = map_of q k" for q
    using assms by (auto simp: gedcom_names_def rename_key_other)
  moreover have "map_of (AList.delete ''_id'' p) k = map_of p k"
    using assms by (auto simp: delete_conv')
  ultimately show ?thesis
    by (simp add: translate_names_def)
qed

lemma clean_person_living:
  assumes "is_living (map_of p ''deceased'') (map_of p ''birth_year'')"
  shows "clean_person is_living whitelist p
           = filter (\<lambda>kv. fst kv \<in> set whitelist) (translate_names p)"
  using assms by (simp add: clean_person_def Let_def translate_names_other strip_details_filter)

text \<open>
  C4.  When the living-person predicate holds of a record's \<open>deceased\<close> and \<open>birth_year\<close>,
  \<open>clean_person\<close> returns the translated record restricted to the whitelist, so every key of
  the result is in \<open>LIVING_PERSON_WHITELISTED_KEYS\<close>.  In particular, with the predicate as the
  spec gives it, this holds for a record with \<open>deceased = False\<close> and no \<open>birth_year\<close>.
\<close>

theorem living_person_only_whitelisted:
  "(is_living (map_of p ''deceased'') (map_of p ''birth_year'') \<longrightarrow>
      clean_person is_living whitelist p = filter (\<lambda>kv. fst kv \<in> set whitelist) (translate_names p) \<and>
      fst ` set (clean_person is_living whitelist p) \<subseteq> set whitelist) \<and>
   (map_of p ''deceased'' = Some (JBool False) \<and> map_of p ''birth_year'' = None \<longrightarrow>
      fst ` set (clean_person (is_living_person current_year threshold) whitelist p) \<subseteq> set whitelist)"
proof (intro conjI impI)
  assume a: "is_living (map_of p ''deceased'') (map_of p ''birth_year'')"
  show "clean_person is_living whitelist p
          = filter (\<lambda>kv. fst kv \<in> set whitelist) (translate_names p)"
    using a by (rule clean_person_living)
  then show "fst ` set (clean_person is_living whitelist p) \<subseteq> set whitelist"
    by auto
next
  assume "map_of p ''deceased'' = Some (JBool False) \<and> map_of p ''birth_year'' = None"
  then have "is_living_person current_year threshold (map_of p ''deceased'') (map_of p ''birth_year'')"
    by (simp add: is_living_person_def)
  then have "clean_person (is_living_person current_year threshold) whitelist p
          = filter (\<lambda>kv. fst kv \<in> set whitelist) (translate_names p)"
    by (rule clean_person_living)
  then show "fst ` set (clean_person (is_living_person current_year threshold) whitelist p)
               \<subseteq> set whitelist"
    by auto
qed

theorem living_person_only_whitelisted_witness:
  "is_living_person 2016 100
     (map_of [(''_id'', JInt 7), (''name'', JStr ''Dana''), (''BIRT_PLAC'', JStr ''Lodz''),
              (''deceased'', JBool False), (''sex'', JStr ''F'')] ''deceased'')
     (map_of [(''_id'', JInt 7), (''name'', JStr ''Dana''), (''BIRT_PLAC'', JStr ''Lodz''),
              (''deceased'', JBool False), (''sex'', JStr ''F'')] ''birth_year'') \<and>
   map_of [(''_id'', JInt 7), (''name'', JStr ''Dana''), (''BIRT_PLAC'', JStr ''Lodz''),
           (''deceased'', JBool False), (''sex'', JStr ''F'')] ''deceased'' = Some (JBool False) \<and>
   map_of [(''_id'', JInt 7), (''name'', JStr ''Dana''), (''BIRT_PLAC'', JStr ''Lodz''),
           (''deceased'', JBool False), (''sex'', JStr ''F'')] ''birth_year'' = None \<and>
   clean_person (is_living_person 2016 100) [''name'', ''sex'', ''tree_num'']
     [(''_id'', JInt 7), (''name'', JStr ''Dana''), (''BIRT_PLAC'', JStr ''Lodz''),
      (''deceased'', JBool False), (''sex'', JStr ''F'')]
     = [(''name'', JStr ''Dana''), (''sex'', JStr ''F'')] \<and>
   fst ` set (clean_person (is_living_person 2016 100) [''name'', ''sex'', ''tree_num'']
     [(''_id'', JInt 7), (''name'', JStr ''Dana''), (''BIRT_PLAC'', JStr ''Lodz''),
      (''deceased'', JBool False), (''sex'', JStr ''F'')]) \<subseteq> set [''name'', ''sex'', ''tree_num'']"
proof -
  have l: "is_living_person 2016 100
     (map_of [(''_id'', JInt 7), (''name'', JStr ''Dana''), (''BIRT_PLAC'', JStr ''Lodz''),
              (''deceased'', JBool False), (''sex'', JStr ''F'')] ''deceased'')
     (map_of [(''_id'', JInt 7), (''name'', JStr ''Dana''), (''BIRT_PLAC'', JStr ''Lodz''),
              (''deceased'', JBool False), (''sex'', JStr ''F'')] ''birth_year'')"
    by (simp add: is_living_person_def)
  have h: "map_of [(''_id'', JInt 7), (''name'', JStr ''Dana''), (''BIRT_PLAC'', JStr ''Lodz''),
           (''deceased'', JBool False), (''sex'', JStr ''F'')] ''deceased'' = Some (JBool False) \<and>
     map_of [(''_id'', JInt 7), (''name'', JStr ''Dana''), (''BIRT_PLAC'', JStr ''Lodz''),
           (''deceased'', JBool False), (''sex'', JStr ''F'')] ''birth_year'' = None"
    by simp
  have c: "clean_person (is_living_person 2016 100) [''name'', ''sex'', ''tree_num'']
     [(''_id'', JInt 7), (''name'', JStr ''Dana''), (''BIRT_PLAC'', JStr ''Lodz''),
      (''deceased'', JBool False), (''sex'', JStr ''F'')]
     = [(''name'', JStr ''Dana''), (''sex'', JStr ''F'')]"
    by code_simp
  show ?thesis
    using living_person_only_whitelisted [of "is_living_person 2016 100"
        "[(''_id'', JInt 7), (''name'', JStr ''Dana''), (''BIRT_PLAC'', JStr ''Lodz''),
          (''deceased'', JBool False), (''sex'', JStr ''F'')]" "[''name'', ''sex'', ''tree_num'']" 2016 100]
      l h c
    by blast
qed

section \<open>Page size and the \<open>start\<close> offset\<close>

lemma int_or_default_falsy: "\<not> truthy a \<Longrightarrow> int_or_default dflt a = Inr dflt"
  by (simp add: int_or_default_def)

text \<open>
  C8 (amended).  When \<open>max_results\<close> is omitted or falsy, \<open>fsearch\<close> limits the page to
  \<open>MAX_RESULTS\<close> = 30 records: the page has at most 30 records and is the sanitized first 30
  of the documents found after skipping.
\<close>

theorem default_page_size:
  assumes "first_of_list max_results = Inr mr" and "\<not> truthy mr"
    and "fsearch sx re is_living whitelist collection_find max_results max_count_results kwargs
           = Inr (tot, page)"
  shows "length page \<le> 30 \<and>
         (\<exists>search_dict q docs.
            build_search_dict kwargs = Inr search_dict \<and>
            build_query sx re search_dict = Inr q \<and>
            skip_start search_dict (collection_find q (Some projection)) = Inr docs \<and>
            page = map (clean_person is_living whitelist) (take 30 docs))"
proof -
  have m: "int_or_default MAX_RESULTS mr = Inr 30"
    using assms(2) by (simp add: int_or_default_falsy MAX_RESULTS_def)
  obtain search_dict where sd: "build_search_dict kwargs = Inr search_dict"
    using assms(1,3) m by (auto simp: fsearch_def split: sum.splits)
  obtain q where q: "build_query sx re search_dict = Inr q"
    using assms(1,3) m sd by (auto simp: fsearch_def split: sum.splits)
  obtain docs where docs: "skip_start search_dict (collection_find q (Some projection)) = Inr docs"
    using assms(1,3) m sd q by (auto simp: fsearch_def Let_def split: sum.splits)
  have "page = map (clean_person is_living whitelist) (take 30 docs)"
    using assms(1,3) m sd q docs
    by (auto simp: fsearch_def Let_def cursor_limit_def split: sum.splits)
  then show ?thesis
    using sd q docs by auto
qed

theorem default_page_size_witness:
  "first_of_list ANone = Inr ANone \<and> \<not> truthy ANone \<and>
   fsearch id (\<lambda>_. True) (\<lambda>_ _. False) [] (\<lambda>q p. replicate 40 [(''name'', JStr ''x'')]) ANone ANone []
     = Inr (40, replicate 30 [(''name'', JStr ''x'')]) \<and>
   length (replicate 30 [(''name'', JStr ''x'')]) \<le> 30"
proof -
  have a: "first_of_list ANone = Inr ANone" by (simp add: first_of_list_def)
  have b: "\<not> truthy ANone" by simp
  have c: "fsearch id (\<lambda>_. True) (\<lambda>_ _. False) [] (\<lambda>q p. replicate 40 [(''name'', JStr ''x'')]) ANone ANone []
     = Inr (40, replicate 30 [(''name'', JStr ''x'')])"
    by code_simp
  show ?thesis
    using default_page_size [OF a b c] a b c by blast
qed

text \<open>With 16 matching documents and no \<open>max_results\<close>, the page has 16 records, more than
  15.\<close>

theorem default_page_size_counterexample:
  "fsearch id (\<lambda>_. True) (\<lambda>_ _. False) [] (\<lambda>q p. replicate 16 [(''id'', JStr ''I1'')])
      ANone ANone [(''last_name'', [''cohen''])]
     = Inr (16, replicate 16 [(''id'', JStr ''I1'')]) \<and>
   15 < length (replicate 16 [(''id'', JStr ''I1'')])"
  by code_simp

lemma search_dict_step_lookup:
  "search_dict_step (k', vs) sd = Inr sd' \<Longrightarrow>
     map_of sd' k = (if k = k' then Some (hd vs) else map_of sd k)"
  by (auto simp: search_dict_step_def update_conv' split: list.splits if_splits)

lemma search_dict_loop_absent:
  "k \<notin> fst ` set kwargs \<Longrightarrow> search_dict_loop kwargs sd = Inr sd' \<Longrightarrow> map_of sd' k = map_of sd k"
proof (induction kwargs arbitrary: sd)
  case Nil
  then show ?case by simp
next
  case (Cons kv kwargs)
  obtain k' vs where kv: "kv = (k', vs)" by (cases kv)
  obtain sd1 where s1: "search_dict_step (k', vs) sd = Inr sd1"
    and s2: "search_dict_loop kwargs sd1 = Inr sd'"
    using Cons.prems(2) kv by (auto split: sum.splits)
  have "map_of sd1 k = map_of sd k"
    using search_dict_step_lookup [OF s1, of k] Cons.prems(1) kv by auto
  moreover have "map_of sd' k = map_of sd1 k"
    using Cons.IH [OF _ s2] Cons.prems(1) by simp
  ultimately show ?case by simp
qed

lemma search_dict_loop_present:
  "distinct (map fst kwargs) \<Longrightarrow> (k, v # vs) \<in> set kwargs \<Longrightarrow>
     search_dict_loop kwargs sd = Inr sd' \<Longrightarrow> map_of sd' k = Some v"
proof (induction kwargs arbitrary: sd)
  case Nil
  then show ?case by simp
next
  case (Cons kv kwargs)
  obtain k' vs' where kv: "kv = (k', vs')" by (cases kv)
  obtain sd1 where s1: "search_dict_step (k', vs') sd = Inr sd1"
    and s2: "search_dict_loop kwargs sd1 = Inr sd'"
    using Cons.prems(3) kv by (auto split: sum.splits)
  show ?case
  proof (cases "kv = (k, v # vs)")
    case True
    then have "k \<notin> fst ` set kwargs"
      using Cons.prems(1) by auto
    then have "map_of sd' k = map_of sd1 k"
      using s2 by (rule search_dict_loop_absent)
    moreover have "map_of sd1 k = Some v"
      using search_dict_step_lookup [OF s1, of k] True kv by simp
    ultimately show ?thesis by simp
  next
    case False
    then have "(k, v # vs) \<in> set kwargs" and "distinct (map fst kwargs)"
      using Cons.prems by auto
    then show ?thesis
      using Cons.IH s2 by blast
  qed
qed

lemma skip_start_not_int:
  "map_of search_dict ''start'' = Some s \<Longrightarrow> py_int s = None \<Longrightarrow>
     skip_start search_dict results = Inl ValueError"
  by (simp add: skip_start_def)

lemma fsearch_start_not_int:
  assumes "distinct (map fst kwargs)" and "(''start'', s # rest) \<in> set kwargs" and "py_int s = None"
  shows "fsearch sx re is_living whitelist collection_find max_results max_count_results kwargs =
     (case first_of_list max_results of Inl e \<Rightarrow> Inl e | Inr mr \<Rightarrow>
      case first_of_list max_count_results of Inl e \<Rightarrow> Inl e | Inr mc \<Rightarrow>
      case int_or_default MAX_RESULTS mr of Inl e \<Rightarrow> Inl e | Inr a \<Rightarrow>
      case int_or_default MAX_COUNT_RESULTS mc of Inl e \<Rightarrow> Inl e | Inr b \<Rightarrow>
      case build_search_dict kwargs of Inl e \<Rightarrow> Inl e | Inr search_dict \<Rightarrow>
      case build_query sx re search_dict of Inl e \<Rightarrow> Inl e | Inr search_query \<Rightarrow> Inl ValueError)"
proof -
  have "skip_start search_dict results = Inl ValueError"
    if "build_search_dict kwargs = Inr search_dict" for search_dict results
  proof -
    have "map_of search_dict ''start'' = Some s"
      using assms(1,2) that unfolding build_search_dict_def by (rule search_dict_loop_present)
    then show ?thesis
      using assms(3) by (rule skip_start_not_int)
  qed
  then show ?thesis
    by (auto simp: fsearch_def Let_def split: sum.splits)
qed

text \<open>
  C10.  When \<open>start\<close> is given a non-empty value that \<open>int\<close> rejects, \<open>fsearch\<close> never returns
  a result; when every step before the skip succeeds, what it raises is the \<open>ValueError\<close> of
  \<open>int\<close>, not an \<open>abort(400, ...)\<close>.  \<open>build_search_dict\<close> accepts the value as it is and hands
  it on unchanged.
\<close>

theorem start_not_integer:
  assumes "distinct (map fst kwargs)" and "(''start'', s # rest) \<in> set kwargs"
    and "s \<noteq> []" and "py_int s = None"
  shows "(\<exists>e. fsearch sx re is_living whitelist collection_find max_results max_count_results kwargs
                = Inl e) \<and>
         (first_of_list max_results = Inr mr \<and> first_of_list max_count_results = Inr mc \<and>
          int_or_default MAX_RESULTS mr = Inr a \<and> int_or_default MAX_COUNT_RESULTS mc = Inr b \<and>
          build_search_dict kwargs = Inr search_dict \<and> build_query sx re search_dict = Inr q
          \<longrightarrow> fsearch sx re is_living whitelist collection_find max_results max_count_results kwargs
                = Inl ValueError) \<and>
         (build_search_dict kwargs = Inr search_dict \<longrightarrow> map_of search_dict ''start'' = Some s) \<and>
         build_search_dict [(''start'', s # rest)] = Inr [(''start'', s)]"
proof (intro conjI impI)
  show "\<exists>e. fsearch sx re is_living whitelist collection_find max_results max_count_results kwargs
                = Inl e"
    unfolding fsearch_start_not_int [OF assms(1,2,4)] by (simp split: sum.splits)
next
  assume "first_of_list max_results = Inr mr \<and> first_of_list max_count_results = Inr mc \<and>
          int_or_default MAX_RESULTS mr = Inr a \<and> int_or_default MAX_COUNT_RESULTS mc = Inr b \<and>
          build_search_dict kwargs = Inr search_dict \<and> build_query sx re search_dict = Inr q"
  then show "fsearch sx re is_living whitelist collection_find max_results max_count_results kwargs
                = Inl ValueError"
    unfolding fsearch_start_not_int [OF assms(1,2,4)] by simp
next
  assume "build_search_dict kwargs = Inr search_dict"
  then show "map_of search_dict ''start'' = Some s"
    using assms(1,2) unfolding build_search_dict_def by (intro search_dict_loop_present)
next
  show "build_search_dict [(''start'', s # rest)] = Inr [(''start'', s)]"
    using assms(3) by (simp add: build_search_dict_def search_dict_step_def)
qed

theorem start_not_integer_witness:
  "distinct (map fst [(''last_name'', [''cohen'']), (''start'', [''abc''])]) \<and>
   (''start'', ''abc'' # []) \<in> set [(''last_name'', [''cohen'']), (''start'', [''abc''])] \<and>
   ''abc'' \<noteq> [] \<and> py_int ''abc'' = None \<and>
   first_of_list ANone = Inr ANone \<and>
   int_or_default MAX_RESULTS ANone = Inr 30 \<and> int_or_default MAX_COUNT_RESULTS ANone = Inr (- 1) \<and>
   build_search_dict [(''last_name'', [''cohen'']), (''start'', [''abc''])]
     = Inr [(''last_name'', ''cohen''), (''start'', ''abc'')] \<and>
   build_query id (\<lambda>_. True) [(''last_name'', ''cohen''), (''start'', ''abc'')]
     = Inr [(''archived'', QExists False), (''name_lc.1'', QStr ''cohen'')] \<and>
   fsearch id (\<lambda>_. True) (\<lambda>_ _. False) [] (\<lambda>q p. []) ANone ANone
       [(''last_name'', [''cohen'']), (''start'', [''abc''])] = Inl ValueError"
proof -
  have d: "distinct (map fst [(''last_name'', [''cohen'']), (''start'', [''abc''])])" by simp
  have m: "(''start'', ''abc'' # []) \<in> set [(''last_name'', [''cohen'']), (''start'', [''abc''])]"
    by simp
  have n: "''abc'' \<noteq> []" by simp
  have p: "py_int ''abc'' = None" by code_simp
  have f: "first_of_list ANone = Inr ANone" by (simp add: first_of_list_def)
  have i: "int_or_default MAX_RESULTS ANone = Inr 30 \<and> int_or_default MAX_COUNT_RESULTS ANone = Inr (- 1)"
    by (simp add: int_or_default_def MAX_RESULTS_def MAX_COUNT_RESULTS_def)
  have s: "build_search_dict [(''last_name'', [''cohen'']), (''start'', [''abc''])]
     = Inr [(''last_name'', ''cohen''), (''start'', ''abc'')]"
    by code_simp
  have b: "build_query id (\<lambda>_. True) [(''last_name'', ''cohen''), (''start'', ''abc'')]
     = Inr [(''archived'', QExists False), (''name_lc.1'', QStr ''cohen'')]"
    by code_simp
  show ?thesis
    using start_not_integer [OF d m n p, of id "\<lambda>_. True" "\<lambda>_ _. False" "[]" "\<lambda>q p. []" ANone ANone
        ANone ANone 30 "- 1" "[(''last_name'', ''cohen''), (''start'', ''abc'')]"
        "[(''archived'', QExists False), (''name_lc.1'', QStr ''cohen'')]"]
      d m n p f i s b
    by blast
qed

end
